theory Spec2Isabelle
  imports Complex_Main "HOL-Library.Word"
begin

unbundle bit_operations_syntax

section \<open>A Bloom filter on a memory-mapped file (bloom\_filter\_concur.py)\<close>

text \<open>
  The development embeds \<^verbatim>\<open>class BloomFilter\<close> of \<^verbatim>\<open>bloom_filter_concur.py\<close>:
  the constructor, \<^verbatim>\<open>compute_hash\<close>, \<^verbatim>\<open>add_elem\<close>, \<^verbatim>\<open>check_member\<close>,
  \<^verbatim>\<open>save_metadata\<close>, \<^verbatim>\<open>load_metadata\<close> and \<^verbatim>\<open>delete\<close>.

  Conventions of the embedding.
  \<^item> Python integers are \<open>int\<close>. A finite Python float is the real number it denotes, and
    \<open>int(x)\<close> on it truncates towards zero. The constructor comes twice: \<open>init\<close> computes
    on the reals (\<open>math.log\<close> is \<open>ln\<close>), and \<open>init_fl\<close> takes the float operations of the
    platform, with their rounding and their overflow, as a parameter, and reads the
    literals as the doubles they are; on exact operations the two agree at every rate
    below the double of \<open>0.48\<close>.
  \<^item> A Python \<open>str\<close> is a \<open>string\<close>: a list of code points below 256; \<open>.encode()\<close> is
    UTF-8 on these.
  \<^item> An exception is a value \<open>Raises e s\<close> carrying the state the call leaves behind; a
    call that blocks for ever on a semaphore is \<open>Hangs\<close>.
  \<^item> The file system is a directory from paths to inodes and a store from inodes to
    contents, so that a mapping outlives the removal of its path, as on POSIX.
  \<^item> \<open>self.cache\<close> (the \<open>lru_cache\<close> wrapper) is never called by the class:
    \<open>add_elem\<close> and \<open>check_member\<close> call \<open>self.compute_hash\<close>. It is left out.
\<close>

subsection \<open>SHA-256 (hashlib.sha256)\<close>

type_synonym byte = "8 word"
type_synonym u32 = "32 word"

definition rotr :: "nat \<Rightarrow> u32 \<Rightarrow> u32" where
  "rotr n x = drop_bit n x OR push_bit (32 - n) x"

definition ch :: "u32 \<Rightarrow> u32 \<Rightarrow> u32 \<Rightarrow> u32" where
  "ch x y z = (x AND y) XOR (NOT x AND z)"

definition maj :: "u32 \<Rightarrow> u32 \<Rightarrow> u32 \<Rightarrow> u32" where
  "maj x y z = (x AND y) XOR (x AND z) XOR (y AND z)"

definition bsig0 :: "u32 \<Rightarrow> u32" where
  "bsig0 x = rotr 2 x XOR rotr 13 x XOR rotr 22 x"

definition bsig1 :: "u32 \<Rightarrow> u32" where
  "bsig1 x = rotr 6 x XOR rotr 11 x XOR rotr 25 x"

definition ssig0 :: "u32 \<Rightarrow> u32" where
  "ssig0 x = rotr 7 x XOR rotr 18 x XOR drop_bit 3 x"

definition ssig1 :: "u32 \<Rightarrow> u32" where
  "ssig1 x = rotr 17 x XOR rotr 19 x XOR drop_bit 10 x"

text \<open>The round constants of FIPS 180-4, eight to a row.\<close>

definition sha256_k :: "u32 list" where
  "sha256_k =
     [0x428a2f98, 0x71374491, 0xb5c0fbcf, 0xe9b5dba5, 0x3956c25b, 0x59f111f1, 0x923f82a4, 0xab1c5ed5] @
     [0xd807aa98, 0x12835b01, 0x243185be, 0x550c7dc3, 0x72be5d74, 0x80deb1fe, 0x9bdc06a7, 0xc19bf174] @
     [0xe49b69c1, 0xefbe4786, 0x0fc19dc6, 0x240ca1cc, 0x2de92c6f, 0x4a7484aa, 0x5cb0a9dc, 0x76f988da] @
     [0x983e5152, 0xa831c66d, 0xb00327c8, 0xbf597fc7, 0xc6e00bf3, 0xd5a79147, 0x06ca6351, 0x14292967] @
     [0x27b70a85, 0x2e1b2138, 0x4d2c6dfc, 0x53380d13, 0x650a7354, 0x766a0abb, 0x81c2c92e, 0x92722c85] @
     [0xa2bfe8a1, 0xa81a664b, 0xc24b8b70, 0xc76c51a3, 0xd192e819, 0xd6990624, 0xf40e3585, 0x106aa070] @
     [0x19a4c116, 0x1e376c08, 0x2748774c, 0x34b0bcb5, 0x391c0cb3, 0x4ed8aa4a, 0x5b9cca4f, 0x682e6ff3] @
     [0x748f82ee, 0x78a5636f, 0x84c87814, 0x8cc70208, 0x90befffa, 0xa4506ceb, 0xbef9a3f7, 0xc67178f2]"

type_synonym sha_state = "u32 \<times> u32 \<times> u32 \<times> u32 \<times> u32 \<times> u32 \<times> u32 \<times> u32"

definition sha256_h0 :: sha_state where
  "sha256_h0 =
   (0x6a09e667, 0xbb67ae85, 0x3c6ef372, 0xa54ff53a, 0x510e527f, 0x9b05688c, 0x1f83d9ab, 0x5be0cd19)"

text \<open>Padding: the byte 0x80, zero bytes up to 56 modulo 64, the bit length on 8 bytes.\<close>

definition be_bytes64 :: "64 word \<Rightarrow> byte list" where
  "be_bytes64 n = map (\<lambda>j. ucast (drop_bit (8 * j) n)) (rev [0..<8])"

definition sha256_pad :: "byte list \<Rightarrow> byte list" where
  "sha256_pad m =
     m @ [0x80] @ replicate ((119 - length m mod 64) mod 64) 0 @ be_bytes64 (of_nat (8 * length m))"

fun be_words :: "byte list \<Rightarrow> u32 list" where
  "be_words (a # b # c # d # r) =
     (push_bit 24 (ucast a) OR push_bit 16 (ucast b) OR push_bit 8 (ucast c) OR ucast d) # be_words r"
| "be_words _ = []"

fun blocks :: "u32 list \<Rightarrow> u32 list list" where
  "blocks [] = []"
| "blocks ws = take 16 ws # blocks (drop 16 ws)"

text \<open>The message schedule, on a window of the last 16 words.\<close>

fun schedule :: "nat \<Rightarrow> u32 list \<Rightarrow> u32 list" where
  "schedule 0 w = []"
| "schedule (Suc k) w =
     hd w # schedule k (tl w @ [ssig1 (w ! 14) + w ! 9 + ssig0 (w ! 1) + w ! 0])"

fun rotate_in :: "sha_state \<Rightarrow> u32 \<Rightarrow> u32 \<Rightarrow> sha_state" where
  "rotate_in (a, b, c, d, e, f, g, h) t1 t2 = (t1 + t2, a, b, c, d + t1, e, f, g)"

fun sha256_round :: "sha_state \<Rightarrow> u32 \<times> u32 \<Rightarrow> sha_state" where
  "sha256_round (a, b, c, d, e, f, g, h) (k, w) =
     rotate_in (a, b, c, d, e, f, g, h) (h + bsig1 e + ch e f g + k + w) (bsig0 a + maj a b c)"

fun add_state :: "sha_state \<Rightarrow> sha_state \<Rightarrow> sha_state" where
  "add_state (a, b, c, d, e, f, g, h) (a', b', c', d', e', f', g', h') =
     (a + a', b + b', c + c', d + d', e + e', f + f', g + g', h + h')"

definition compress :: "sha_state \<Rightarrow> u32 list \<Rightarrow> sha_state" where
  "compress hs blk = add_state hs (foldl sha256_round hs (zip sha256_k (schedule 64 blk)))"

definition word_bytes :: "u32 \<Rightarrow> byte list" where
  "word_bytes w = [ucast (drop_bit 24 w), ucast (drop_bit 16 w), ucast (drop_bit 8 w), ucast w]"

fun state_bytes :: "sha_state \<Rightarrow> byte list" where
  "state_bytes (a, b, c, d, e, f, g, h) = concat (map word_bytes [a, b, c, d, e, f, g, h])"

definition sha256 :: "byte list \<Rightarrow> byte list" where
  "sha256 m = state_bytes (foldl compress sha256_h0 (blocks (be_words (sha256_pad m))))"

subsection \<open>Strings: str, encode, hexdigest, int(_, 16)\<close>

datatype exn =
    AssertionError | ValueError | ZeroDivisionError | OverflowError
  | FileNotFoundError | UnpicklingError | EOFError | IndexError

definition digit_char :: "nat \<Rightarrow> char" where
  "digit_char d = ''0123456789'' ! d"

fun str_nat :: "nat \<Rightarrow> string" where
  "str_nat n = (if n < 10 then [digit_char n] else str_nat (n div 10) @ [digit_char (n mod 10)])"

text \<open>\<open>str(i)\<close> for a Python integer.\<close>

definition str_int :: "int \<Rightarrow> string" where
  "str_int i = (if i < 0 then CHR ''-'' # str_nat (nat (- i)) else str_nat (nat i))"

text \<open>The elements the driver adds and looks up: integers and strings.\<close>

datatype elem = IntE int | StrE string

text \<open>\<open>str(elem)\<close>: the decimal form of an integer, a string itself.\<close>

fun py_str :: "elem \<Rightarrow> string" where
  "py_str (IntE i) = str_int i"
| "py_str (StrE s) = s"

text \<open>\<open>s.encode()\<close>: UTF-8, one byte below 128 and two bytes from 128 to 255.\<close>

definition utf8_char :: "char \<Rightarrow> byte list" where
  "utf8_char c =
     (let n = (of_char c :: nat)
      in if n < 128 then [of_nat n] else [of_nat (192 + n div 64), of_nat (128 + n mod 64)])"

definition encode :: "string \<Rightarrow> byte list" where
  "encode s = concat (map utf8_char s)"

definition hex_digit :: "nat \<Rightarrow> char" where
  "hex_digit d = ''0123456789abcdef'' ! d"

definition hex_byte :: "byte \<Rightarrow> string" where
  "hex_byte b = [hex_digit (unat b div 16), hex_digit (unat b mod 16)]"

definition hexdigest :: "byte list \<Rightarrow> string" where
  "hexdigest m = concat (map hex_byte (sha256 m))"

text \<open>\<open>int(s, 16)\<close> on a string of hexadecimal digits; anything else raises ValueError.\<close>

definition hex_val :: "char \<Rightarrow> int option" where
  "hex_val c =
     (let n = (of_char c :: nat)
      in if 48 \<le> n \<and> n \<le> 57 then Some (int n - 48)
         else if 97 \<le> n \<and> n \<le> 102 then Some (int n - 87)
         else if 65 \<le> n \<and> n \<le> 70 then Some (int n - 55)
         else None)"

fun int16_from :: "int \<Rightarrow> string \<Rightarrow> exn + int" where
  "int16_from acc [] = Inr acc"
| "int16_from acc (c # cs) =
     (case hex_val c of None \<Rightarrow> Inl ValueError | Some v \<Rightarrow> int16_from (16 * acc + v) cs)"

definition int16 :: "string \<Rightarrow> exn + int" where
  "int16 s = (if s = [] then Inl ValueError else int16_from 0 s)"

text \<open>The digest read as one big-endian integer.\<close>

definition be_int :: "byte list \<Rightarrow> int" where
  "be_int bs = foldl (\<lambda>acc b. 256 * acc + uint b) 0 bs"

subsection \<open>Outcomes of a call\<close>

datatype ('a, 's) outcome = Returns 'a 's | Raises exn 's | Hangs

fun and_then :: "('a, 's) outcome \<Rightarrow> ('a \<Rightarrow> 's \<Rightarrow> ('b, 's) outcome) \<Rightarrow> ('b, 's) outcome" where
  "and_then (Returns a s) f = f a s"
| "and_then (Raises e s) f = Raises e s"
| "and_then Hangs f = Hangs"

subsection \<open>The file system\<close>

text \<open>
  A file holds raw bytes or the pickle of the dictionary
  \<^verbatim>\<open>{"size": ..., "hash_count": ...}\<close> that \<^verbatim>\<open>save_metadata\<close> dumps.
\<close>

datatype content = Bytes "byte list" | Pickle int int

record world =
  dir :: "string \<rightharpoonup> nat"
  inode :: "nat \<rightharpoonup> content"
  next_ino :: nat

text \<open>\<open>os.path.exists(path)\<close> and \<open>os.remove(path)\<close>.\<close>

definition path_exists :: "string \<Rightarrow> world \<Rightarrow> bool" where
  "path_exists path w = (dir w path \<noteq> None)"

definition os_remove :: "string \<Rightarrow> world \<Rightarrow> (unit, world) outcome" where
  "os_remove path w =
     (if path_exists path w then Returns () (w\<lparr>dir := (dir w)(path := None)\<rparr>)
      else Raises FileNotFoundError w)"

text \<open>
  \<^verbatim>\<open>with open(path, "wb") as f: f.write(c)\<close>: an existing file is truncated and
  rewritten in place, a missing one is created on a new inode.
\<close>

definition write_file :: "string \<Rightarrow> content \<Rightarrow> world \<Rightarrow> world" where
  "write_file path c w =
     (case dir w path of
        Some ino \<Rightarrow> w\<lparr>inode := (inode w)(ino \<mapsto> c)\<rparr>
      | None \<Rightarrow> w\<lparr>dir := (dir w)(path \<mapsto> next_ino w),
                  inode := (inode w)(next_ino w \<mapsto> c),
                  next_ino := Suc (next_ino w)\<rparr>)"

subsection \<open>The filter object\<close>

text \<open>
  The fields of \<open>self\<close>. \<open>bit_array\<close> is the mapping: the inode whose bytes it shares.
  The three semaphores hold their counters.
\<close>

record bloom =
  size_bf :: int
  hash_count :: int
  filename :: string
  readcount :: int
  resource :: nat
  rmutex :: nat
  serviceQueue :: nat
  bit_array :: nat

type_synonym state = "bloom \<times> world"

text \<open>
  \<open>threading.Semaphore\<close>: \<open>acquire\<close> takes one unit and blocks while the counter is 0
  (for ever, when no other thread runs); \<open>release\<close> gives one unit back.
\<close>

definition acquire ::
  "(bloom \<Rightarrow> nat) \<Rightarrow> ((nat \<Rightarrow> nat) \<Rightarrow> bloom \<Rightarrow> bloom) \<Rightarrow> state \<Rightarrow> (unit, state) outcome" where
  "acquire sem sem_update st =
     (if sem (fst st) = 0 then Hangs else Returns () (sem_update (\<lambda>v. v - 1) (fst st), snd st))"

definition release ::
  "((nat \<Rightarrow> nat) \<Rightarrow> bloom \<Rightarrow> bloom) \<Rightarrow> state \<Rightarrow> (unit, state) outcome" where
  "release sem_update st = Returns () (sem_update (\<lambda>v. v + 1) (fst st), snd st)"

text \<open>Python's \<open>int(x)\<close> on a float: truncation towards zero.\<close>

definition py_int :: "real \<Rightarrow> int" where
  "py_int x = (if 0 \<le> x then \<lfloor>x\<rfloor> else \<lceil>x\<rceil>)"

definition save_metadata :: "bloom \<Rightarrow> world \<Rightarrow> world" where
  "save_metadata self w =
     write_file (filename self @ ''.meta'') (Pickle (size_bf self) (hash_count self)) w"

text \<open>
  \<open>load_metadata\<close>: \<open>pickle.load\<close> on the metadata file. An empty file ends before the
  pickle starts (EOFError); other bytes that are not such a pickle raise UnpicklingError.
\<close>

definition load_metadata :: "state \<Rightarrow> (unit, state) outcome" where
  "load_metadata st =
     (case dir (snd st) (filename (fst st) @ ''.meta'') of
        None \<Rightarrow> Raises FileNotFoundError st
      | Some ino \<Rightarrow>
         (case inode (snd st) ino of
            Some (Pickle sz hc) \<Rightarrow> Returns () ((fst st)\<lparr>size_bf := sz, hash_count := hc\<rparr>, snd st)
          | Some (Bytes []) \<Rightarrow> Raises EOFError st
          | _ \<Rightarrow> Raises UnpicklingError st))"

text \<open>
  \<open>mmap.mmap(file.fileno(), length=size)\<close> on the file at \<open>path\<close>: a negative length is
  an OverflowError, length 0 maps the whole file and an empty file cannot be mapped.
\<close>

definition mmap_file :: "string \<Rightarrow> int \<Rightarrow> world \<Rightarrow> exn + nat" where
  "mmap_file path len w =
     (case dir w path of
        None \<Rightarrow> Inl FileNotFoundError
      | Some ino \<Rightarrow>
         (case inode w ino of
            Some (Bytes bs) \<Rightarrow>
              if len < 0 then Inl OverflowError
              else if bs = [] \<or> int (length bs) < len then Inl ValueError
              else Inr ino
          | _ \<Rightarrow> Inl ValueError))"

text \<open>
  The two parameters the constructor derives (lines 33 and 34):
  \<^verbatim>\<open>int(-num_elem * math.log(target_error_rate) / (math.log(2) ** 2))\<close> and
  \<^verbatim>\<open>int(self.size / num_elem * math.log(2))\<close>, first with the floats read as the real
  numbers they stand for.
\<close>

definition derive_size :: "int \<Rightarrow> real \<Rightarrow> int" where
  "derive_size num_elem target_error_rate =
     py_int (- real_of_int num_elem * ln target_error_rate / (ln 2)\<^sup>2)"

definition derive_hash_count :: "int \<Rightarrow> int \<Rightarrow> int" where
  "derive_hash_count sz num_elem = py_int (real_of_int sz / real_of_int num_elem * ln 2)"

text \<open>
  The constructor. The assertion on the error rate (\<open>math.log\<close> raises ValueError on a
  rate that is not positive), the two derived parameters (the float division raises on
  \<open>num_elem = 0\<close>), the semaphores, the zero-filled file (any file already at the path
  is removed first), its mapping, and the metadata beside it.
\<close>

definition init :: "int \<Rightarrow> real \<Rightarrow> string \<Rightarrow> world \<Rightarrow> (bloom, world) outcome" where
  "init num_elem target_error_rate fname w =
     (if \<not> target_error_rate < 48 / 100 then Raises AssertionError w
      else if target_error_rate \<le> 0 then Raises ValueError w
      else
        let sz = derive_size num_elem target_error_rate
        in if num_elem = 0 then Raises ZeroDivisionError w
           else
             let hc = derive_hash_count sz num_elem;
                 w1 = (if path_exists fname w then w\<lparr>dir := (dir w)(fname := None)\<rparr> else w);
                 w2 = write_file fname (Bytes (replicate (nat sz) 0)) w1
             in case mmap_file fname sz w2 of
                  Inl e \<Rightarrow> Raises e w2
                | Inr m \<Rightarrow>
                    let self = \<lparr>size_bf = sz, hash_count = hc, filename = fname, readcount = 0,
                                resource = 1, rmutex = 1, serviceQueue = 1, bit_array = m\<rparr>
                    in Returns self (save_metadata self w2))"

text \<open>
  The same lines on the double-precision arithmetic of the platform. A finite double is
  the real number it denotes; these are the doubles of the literals \<open>0.48\<close> (line 31)
  and \<open>0.05\<close> (line 36).
\<close>

definition lit_048 :: real where
  "lit_048 = 1080863910568919 / 2 ^ 51"

definition lit_005 :: real where
  "lit_005 = 3602879701896397 / 2 ^ 56"

text \<open>
  The operations that lines 33, 34 and 36 use are the fields of an \<open>arith\<close>; each answers
  \<open>None\<close> where the result is no finite double. They are the conversion of an int in
  \<open>int * float\<close>, \<open>math.log\<close>, the float product and quotient, \<open>x ** 2\<close>, and the quotient
  \<open>int / int\<close>.
\<close>

record arith =
  to_float :: "int \<Rightarrow> real option"
  log_f :: "real \<Rightarrow> real"
  mul_f :: "real \<Rightarrow> real \<Rightarrow> real option"
  div_f :: "real \<Rightarrow> real \<Rightarrow> real option"
  sqr_f :: "real \<Rightarrow> real option"
  int_div_f :: "int \<Rightarrow> int \<Rightarrow> real option"

text \<open>
  The double that line 33 hands to \<open>int\<close>:
  \<^verbatim>\<open>-num_elem * math.log(target_error_rate) / (math.log(2) ** 2)\<close>. The logarithm is
  taken before \<open>-num_elem\<close> is converted for the product. An int too large for a double
  and an overflow of \<open>**\<close> raise OverflowError, a zero divisor raises ZeroDivisionError,
  and a product or a quotient that overflows is an infinity, on which \<open>int\<close> raises
  OverflowError.
\<close>

definition size_float :: "arith \<Rightarrow> int \<Rightarrow> real \<Rightarrow> exn + real" where
  "size_float A num_elem target_error_rate =
     (let l = log_f A target_error_rate
      in case to_float A (- num_elem) of
           None \<Rightarrow> Inl OverflowError
         | Some a \<Rightarrow>
            (case sqr_f A (log_f A 2) of
               None \<Rightarrow> Inl OverflowError
             | Some s \<Rightarrow>
                if s = 0 then Inl ZeroDivisionError
                else
                  (case mul_f A a l of
                     None \<Rightarrow> Inl OverflowError
                   | Some m \<Rightarrow>
                      (case div_f A m s of
                         None \<Rightarrow> Inl OverflowError
                       | Some v \<Rightarrow> Inr v))))"

definition derive_size_fl :: "arith \<Rightarrow> int \<Rightarrow> real \<Rightarrow> exn + int" where
  "derive_size_fl A num_elem target_error_rate =
     (case size_float A num_elem target_error_rate of
        Inl e \<Rightarrow> Inl e
      | Inr v \<Rightarrow> Inr (py_int v))"

text \<open>
  Line 34, \<^verbatim>\<open>int(self.size / num_elem * math.log(2))\<close>: the quotient of the two ints
  raises on a zero divisor and on a result too large for a double.
\<close>

definition derive_hash_count_fl :: "arith \<Rightarrow> int \<Rightarrow> int \<Rightarrow> exn + int" where
  "derive_hash_count_fl A sz num_elem =
     (if num_elem = 0 then Inl ZeroDivisionError
      else
        case int_div_f A sz num_elem of
          None \<Rightarrow> Inl OverflowError
        | Some q \<Rightarrow>
           (case mul_f A q (log_f A 2) of
              None \<Rightarrow> Inl OverflowError
            | Some h \<Rightarrow> Inr (py_int h)))"

text \<open>
  Line 36, \<^verbatim>\<open>int(0.05 * self.size * self.hash_count)\<close>, the capacity of the cache: the two
  ints are converted for the two products, and \<open>int\<close> raises on an infinity
  (OverflowError) and on the \<open>nan\<close> that an infinity times zero gives (ValueError).
\<close>

definition max_cache_size :: "arith \<Rightarrow> int \<Rightarrow> int \<Rightarrow> exn + int" where
  "max_cache_size A sz hc =
     (case to_float A sz of
        None \<Rightarrow> Inl OverflowError
      | Some s \<Rightarrow>
         (case to_float A hc of
            None \<Rightarrow> Inl OverflowError
          | Some h \<Rightarrow>
             (case mul_f A lit_005 s of
                None \<Rightarrow> if h = 0 then Inl ValueError else Inl OverflowError
              | Some t \<Rightarrow>
                 (case mul_f A t h of
                    None \<Rightarrow> Inl OverflowError
                  | Some c \<Rightarrow> Inr (py_int c)))))"

text \<open>
  The constructor on such an arithmetic. The rate is compared with the double of the
  literal \<open>0.48\<close>; lines 33, 34 and 36 raise before any file is touched.
\<close>

definition init_fl :: "arith \<Rightarrow> int \<Rightarrow> real \<Rightarrow> string \<Rightarrow> world \<Rightarrow> (bloom, world) outcome" where
  "init_fl A num_elem target_error_rate fname w =
     (if \<not> target_error_rate < lit_048 then Raises AssertionError w
      else if target_error_rate \<le> 0 then Raises ValueError w
      else
        case derive_size_fl A num_elem target_error_rate of
          Inl e \<Rightarrow> Raises e w
        | Inr sz \<Rightarrow>
           (case derive_hash_count_fl A sz num_elem of
              Inl e \<Rightarrow> Raises e w
            | Inr hc \<Rightarrow>
               (case max_cache_size A sz hc of
                  Inl e \<Rightarrow> Raises e w
                | Inr c \<Rightarrow>
                   let w1 = (if path_exists fname w then w\<lparr>dir := (dir w)(fname := None)\<rparr> else w);
                       w2 = write_file fname (Bytes (replicate (nat sz) 0)) w1
                   in case mmap_file fname sz w2 of
                        Inl e \<Rightarrow> Raises e w2
                      | Inr m \<Rightarrow>
                          let self = \<lparr>size_bf = sz, hash_count = hc, filename = fname,
                                      readcount = 0, resource = 1, rmutex = 1, serviceQueue = 1,
                                      bit_array = m\<rparr>
                          in Returns self (save_metadata self w2))))"

text \<open>
  Arithmetic without rounding and without overflow: on it the constructor is \<open>init\<close>
  above, at every rate below the double of \<open>0.48\<close>.
\<close>

definition exact_arith :: arith where
  "exact_arith =
     \<lparr>to_float = (\<lambda>n. Some (real_of_int n)), log_f = ln, mul_f = (\<lambda>a b. Some (a * b)),
      div_f = (\<lambda>a b. Some (a / b)), sqr_f = (\<lambda>x. Some (x\<^sup>2)),
      int_div_f = (\<lambda>a b. Some (real_of_int a / real_of_int b))\<rparr>"

text \<open>
  \<open>compute_hash\<close>: the SHA-256 digest of \<open>elem + str(i)\<close>, read in base 16, modulo
  \<open>self.size\<close>. Python's \<open>%\<close> takes the sign of the divisor, as \<open>mod\<close> on \<open>int\<close> does,
  and raises on a zero divisor.
\<close>

definition compute_hash :: "bloom \<Rightarrow> string \<Rightarrow> int \<Rightarrow> exn + int" where
  "compute_hash self elem i =
     (case int16 (hexdigest (encode (elem @ str_int i))) of
        Inl e \<Rightarrow> Inl e
      | Inr digest \<Rightarrow> if size_bf self = 0 then Inl ZeroDivisionError else Inr (digest mod size_bf self))"

text \<open>
  Indexing the mapping: a negative index counts from the end, an index outside the
  mapping raises IndexError.
\<close>

definition mmap_index :: "byte list \<Rightarrow> int \<Rightarrow> nat option" where
  "mmap_index bs index =
     (let n = int (length bs); j = (if index < 0 then index + n else index)
      in if 0 \<le> j \<and> j < n then Some (nat j) else None)"

definition mmap_set :: "int \<Rightarrow> byte \<Rightarrow> state \<Rightarrow> (unit, state) outcome" where
  "mmap_set index v st =
     (case inode (snd st) (bit_array (fst st)) of
        Some (Bytes bs) \<Rightarrow>
          (case mmap_index bs index of
             None \<Rightarrow> Raises IndexError st
           | Some j \<Rightarrow>
               Returns () (fst st, (snd st)\<lparr>inode := (inode (snd st))(bit_array (fst st) \<mapsto> Bytes (bs[j := v]))\<rparr>))
      | _ \<Rightarrow> Raises ValueError st)"

definition mmap_get :: "int \<Rightarrow> state \<Rightarrow> (byte, state) outcome" where
  "mmap_get index st =
     (case inode (snd st) (bit_array (fst st)) of
        Some (Bytes bs) \<Rightarrow>
          (case mmap_index bs index of
             None \<Rightarrow> Raises IndexError st
           | Some j \<Rightarrow> Returns (bs ! j) st)
      | _ \<Rightarrow> Raises ValueError st)"

text \<open>\<open>range(n)\<close>: empty for a negative \<open>n\<close>.\<close>

definition py_range :: "int \<Rightarrow> int list" where
  "py_range n = map int [0..<nat n]"

text \<open>The loop of \<open>add_elem\<close> over the indices that remain.\<close>

fun add_loop :: "string \<Rightarrow> int list \<Rightarrow> state \<Rightarrow> (unit, state) outcome" where
  "add_loop elem [] st = Returns () st"
| "add_loop elem (i # rest) st =
     (case compute_hash (fst st) elem i of
        Inl e \<Rightarrow> Raises e st
      | Inr index \<Rightarrow> and_then (mmap_set index 1 st) (\<lambda>_. add_loop elem rest))"

text \<open>
  \<open>add_elem\<close>: the writer's entry, the metadata, the loop, the flush (which changes
  nothing a later read can see), the writer's exit. An exception leaves the method at
  once, with the semaphores as they are.
\<close>

definition add_elem :: "elem \<Rightarrow> state \<Rightarrow> (unit, state) outcome" where
  "add_elem elem st =
     and_then (acquire serviceQueue serviceQueue_update st) (\<lambda>_ st.
     and_then (acquire resource resource_update st) (\<lambda>_ st.
     and_then (release serviceQueue_update st) (\<lambda>_ st.
     and_then (load_metadata st) (\<lambda>_ st.
     and_then (add_loop (py_str elem) (py_range (hash_count (fst st))) st) (\<lambda>_ st.
     release resource_update st)))))"

text \<open>The loop of \<open>check_member\<close>: \<open>res\<close> is False at the first byte that is not 1.\<close>

fun check_loop :: "string \<Rightarrow> int list \<Rightarrow> state \<Rightarrow> (bool, state) outcome" where
  "check_loop elem [] st = Returns True st"
| "check_loop elem (i # rest) st =
     (case compute_hash (fst st) elem i of
        Inl e \<Rightarrow> Raises e st
      | Inr index \<Rightarrow>
          and_then (mmap_get index st) (\<lambda>v st.
            if v \<noteq> 1 then Returns False st else check_loop elem rest st))"

definition reader_entry :: "state \<Rightarrow> (unit, state) outcome" where
  "reader_entry st =
     and_then (acquire serviceQueue serviceQueue_update st) (\<lambda>_ st.
     and_then (acquire rmutex rmutex_update st) (\<lambda>_ st.
     and_then (Returns () ((fst st)\<lparr>readcount := readcount (fst st) + 1\<rparr>, snd st)) (\<lambda>_ st.
     and_then (if readcount (fst st) = 1 then acquire resource resource_update st
               else Returns () st) (\<lambda>_ st.
     and_then (release serviceQueue_update st) (\<lambda>_ st.
     release rmutex_update st)))))"

definition reader_exit :: "state \<Rightarrow> (unit, state) outcome" where
  "reader_exit st =
     and_then (acquire rmutex rmutex_update st) (\<lambda>_ st.
     and_then (Returns () ((fst st)\<lparr>readcount := readcount (fst st) - 1\<rparr>, snd st)) (\<lambda>_ st.
     and_then (if readcount (fst st) = 0 then release resource_update st
               else Returns () st) (\<lambda>_ st.
     release rmutex_update st)))"

definition check_member :: "elem \<Rightarrow> state \<Rightarrow> (bool, state) outcome" where
  "check_member elem st =
     and_then (reader_entry st) (\<lambda>_ st.
     and_then (load_metadata st) (\<lambda>_ st.
     and_then (check_loop (py_str elem) (py_range (hash_count (fst st))) st) (\<lambda>res st.
     and_then (reader_exit st) (\<lambda>_ st.
     Returns res st))))"

text \<open>\<open>delete\<close>: both files are removed from the directory.\<close>

definition delete :: "state \<Rightarrow> (unit, state) outcome" where
  "delete st =
     (case os_remove (filename (fst st)) (snd st) of
        Returns _ w1 \<Rightarrow>
          (case os_remove (filename (fst st) @ ''.meta'') w1 of
             Returns _ w2 \<Rightarrow> Returns () (fst st, w2)
           | Raises e w2 \<Rightarrow> Raises e (fst st, w2)
           | Hangs \<Rightarrow> Hangs)
      | Raises e w1 \<Rightarrow> Raises e (fst st, w1)
      | Hangs \<Rightarrow> Hangs)"

subsection \<open>Notions used to state the properties\<close>

text \<open>
  A filter as the constructor leaves it and as every call that returns leaves it: the
  semaphores are free, no reader is inside, the metadata file holds a positive size and
  the mapping has that many bytes.
\<close>

definition live :: "state \<Rightarrow> bool" where
  "live st \<longleftrightarrow>
     resource (fst st) = 1 \<and> rmutex (fst st) = 1 \<and> serviceQueue (fst st) = 1 \<and>
     readcount (fst st) = 0 \<and>
     (case dir (snd st) (filename (fst st) @ ''.meta'') of
        None \<Rightarrow> False
      | Some m \<Rightarrow>
         (case inode (snd st) m of
            Some (Pickle sz hc) \<Rightarrow>
              (case inode (snd st) (bit_array (fst st)) of
                 Some (Bytes bs) \<Rightarrow> 0 < sz \<and> int (length bs) = sz
               | _ \<Rightarrow> False)
          | _ \<Rightarrow> False))"

text \<open>The directory only names inodes that have been handed out.\<close>

definition wf_world :: "world \<Rightarrow> bool" where
  "wf_world w \<longleftrightarrow> (\<forall>p ino. dir w p = Some ino \<longrightarrow> ino < next_ino w)"

text \<open>The size and the number of hash functions that the metadata file holds.\<close>

definition stored_size :: "state \<Rightarrow> int" where
  "stored_size st =
     (case dir (snd st) (filename (fst st) @ ''.meta'') of
        None \<Rightarrow> 0
      | Some m \<Rightarrow> (case inode (snd st) m of Some (Pickle sz hc) \<Rightarrow> sz | _ \<Rightarrow> 0))"

definition stored_hash_count :: "state \<Rightarrow> int" where
  "stored_hash_count st =
     (case dir (snd st) (filename (fst st) @ ''.meta'') of
        None \<Rightarrow> 0
      | Some m \<Rightarrow> (case inode (snd st) m of Some (Pickle sz hc) \<Rightarrow> hc | _ \<Rightarrow> 0))"

text \<open>The bytes of the mapping.\<close>

definition mapped :: "state \<Rightarrow> byte list" where
  "mapped st = (case inode (snd st) (bit_array (fst st)) of Some (Bytes bs) \<Rightarrow> bs | _ \<Rightarrow> [])"

text \<open>The position that hash number \<open>i\<close> gives an element in an array of \<open>sz\<close> bytes.\<close>

definition position :: "int \<Rightarrow> string \<Rightarrow> int \<Rightarrow> nat" where
  "position sz elem i = nat (be_int (sha256 (encode (elem @ str_int i))) mod sz)"

definition positions :: "int \<Rightarrow> int \<Rightarrow> string \<Rightarrow> nat list" where
  "positions sz hc elem = map (position sz elem) (py_range hc)"

definition set_bits :: "byte list \<Rightarrow> nat list \<Rightarrow> byte list" where
  "set_bits bs ps = foldl (\<lambda>bs p. bs[p := 1]) bs ps"

text \<open>The driver's filter, \<^verbatim>\<open>BloomFilter(100, 0.1)\<close>, on an empty file system.\<close>

definition empty_world :: world where
  "empty_world = \<lparr>dir = Map.empty, inode = Map.empty, next_ino = 0\<rparr>"

definition driver_self :: bloom where
  "driver_self =
     \<lparr>size_bf = 479, hash_count = 3, filename = ''bloom_filter.bin'', readcount = 0,
      resource = 1, rmutex = 1, serviceQueue = 1, bit_array = 0\<rparr>"

definition driver_world :: world where
  "driver_world =
     \<lparr>dir = [''bloom_filter.bin'' \<mapsto> 0, ''bloom_filter.bin.meta'' \<mapsto> 1],
      inode = [0 \<mapsto> Bytes (replicate 479 0), 1 \<mapsto> Pickle 479 3],
      next_ino = 2\<rparr>"

text \<open>The filter \<^verbatim>\<open>BloomFilter(1, 0.47)\<close> on an empty file system.\<close>

definition tiny_self :: bloom where
  "tiny_self =
     \<lparr>size_bf = 1, hash_count = 0, filename = ''bloom_filter.bin'', readcount = 0,
      resource = 1, rmutex = 1, serviceQueue = 1, bit_array = 0\<rparr>"

definition tiny_world :: world where
  "tiny_world =
     \<lparr>dir = [''bloom_filter.bin'' \<mapsto> 0, ''bloom_filter.bin.meta'' \<mapsto> 1],
      inode = [0 \<mapsto> Bytes [0], 1 \<mapsto> Pickle 1 0],
      next_ino = 2\<rparr>"

text \<open>
  Rounding. \<open>near u r y\<close>: the double \<open>r\<close> is the real \<open>y\<close> up to the relative error \<open>u\<close>.
  \<open>rounded u A n p\<close>: for the arguments \<open>n\<close> and \<open>p\<close>, each of the six operations of
  line 33 returns a finite double and is that accurate at the operands the line gives it.
\<close>

definition near :: "real \<Rightarrow> real \<Rightarrow> real \<Rightarrow> bool" where
  "near u r y \<longleftrightarrow> \<bar>r - y\<bar> \<le> u * \<bar>y\<bar>"

definition rounded :: "real \<Rightarrow> arith \<Rightarrow> int \<Rightarrow> real \<Rightarrow> bool" where
  "rounded u A n p \<longleftrightarrow>
     (let l = log_f A p; c = log_f A 2
      in case to_float A (- n) of
           None \<Rightarrow> False
         | Some a \<Rightarrow>
            (case sqr_f A c of
               None \<Rightarrow> False
             | Some s \<Rightarrow>
                (case mul_f A a l of
                   None \<Rightarrow> False
                 | Some m \<Rightarrow>
                    (case div_f A m s of
                       None \<Rightarrow> False
                     | Some v \<Rightarrow>
                        near u a (real_of_int (- n)) \<and> near u l (ln p) \<and> near u m (a * l) \<and>
                        near u c (ln 2) \<and> near u s (c\<^sup>2) \<and> near u v (m / s)))))"

text \<open>
  The real number that the claim rounds, \<open>-n * ln p / (ln 2)\<^sup>2\<close>, and what six roundings
  can do to it: four of them act on the numerator and the quotient, three on the
  denominator.
\<close>

definition real_size :: "int \<Rightarrow> real \<Rightarrow> real" where
  "real_size n p = - real_of_int n * ln p / (ln 2)\<^sup>2"

definition round_lo :: "real \<Rightarrow> real" where
  "round_lo u = (1 - u) ^ 4 / (1 + u) ^ 3"

definition round_hi :: "real \<Rightarrow> real" where
  "round_hi u = (1 + u) ^ 4 / (1 - u) ^ 3"

text \<open>
  An arithmetic that rounds and overflows: it has no double for the ints from
  \<open>2 ^ 1024\<close> on, and its quotient comes out too large by one part in \<open>2 ^ 53\<close>.
\<close>

definition sample_arith :: arith where
  "sample_arith =
     \<lparr>to_float = (\<lambda>n. if \<bar>n\<bar> < 2 ^ 1024 then Some (real_of_int n) else None),
      log_f = ln, mul_f = (\<lambda>a b. Some (a * b)),
      div_f = (\<lambda>a b. Some (a / b * (1 + 1 / 2 ^ 53))), sqr_f = (\<lambda>x. Some (x\<^sup>2)),
      int_div_f = (\<lambda>a b. Some (real_of_int a / real_of_int b))\<rparr>"

text \<open>
  A rate at which the real value of line 33, for \<open>n = 1\<close>, is \<open>5 / (1 + 1 / 2 ^ 53)\<close>:
  just below 5.
\<close>

definition boundary_rate :: real where
  "boundary_rate = exp (- (5 / (1 + 1 / 2 ^ 53)) * (ln 2)\<^sup>2)"

text \<open>A caller adding several elements in a row, as the driver does.\<close>

fun add_all :: "elem list \<Rightarrow> state \<Rightarrow> (unit, state) outcome" where
  "add_all [] st = Returns () st"
| "add_all (x # xs) st = and_then (add_elem x st) (\<lambda>_. add_all xs)"

text \<open>
  What the caller sees of a call: the value returned, the exception, or nothing when the
  call blocks for ever.
\<close>

datatype 'a answer = Value 'a | Error exn | Blocked

fun answer_of :: "('a, 's) outcome \<Rightarrow> 'a answer" where
  "answer_of (Returns a s) = Value a"
| "answer_of (Raises e s) = Error e"
| "answer_of Hangs = Blocked"

text \<open>A caller that goes on to its next call, also after catching an exception.\<close>

fun and_next :: "('a, 's) outcome \<Rightarrow> ('s \<Rightarrow> ('b, 's) outcome) \<Rightarrow> ('b, 's) outcome" where
  "and_next (Returns a s) f = f s"
| "and_next (Raises e s) f = f s"
| "and_next Hangs f = Hangs"


subsection \<open>Several threads in add\_elem\<close>

text \<open>
  Threads that each call \<open>add_elem\<close> on the one filter. A thread is the element it adds
  and the line of \<open>add_elem\<close> it is about to run: the three semaphore operations of the
  entry (lines 61 to 63), \<open>load_metadata\<close> (line 65), the loop with the indices that
  remain (lines 66 to 68), the flush (line 69) and the release of \<open>resource\<close> (line 73).
  A thread that cannot take a semaphore has no step; the scheduler picks any thread that
  has one.
\<close>

datatype pc = At61 | At62 | At63 | At65 | At66 "int list" | At69 | At73 | Returned | Raised exn

type_synonym thread = "elem \<times> pc"

definition advance :: "(unit, state) outcome \<Rightarrow> pc \<Rightarrow> (pc \<times> state) option" where
  "advance out nxt =
     (case out of
        Returns _ st \<Rightarrow> Some (nxt, st)
      | Raises e st \<Rightarrow> Some (Raised e, st)
      | Hangs \<Rightarrow> None)"

fun thread_step :: "elem \<Rightarrow> pc \<Rightarrow> state \<Rightarrow> (pc \<times> state) option" where
  "thread_step elem At61 st = advance (acquire serviceQueue serviceQueue_update st) At62"
| "thread_step elem At62 st = advance (acquire resource resource_update st) At63"
| "thread_step elem At63 st = advance (release serviceQueue_update st) At65"
| "thread_step elem At65 st =
     (case load_metadata st of
        Returns _ st' \<Rightarrow> Some (At66 (py_range (hash_count (fst st'))), st')
      | Raises e st' \<Rightarrow> Some (Raised e, st')
      | Hangs \<Rightarrow> None)"
| "thread_step elem (At66 []) st = Some (At69, st)"
| "thread_step elem (At66 (i # rest)) st =
     (case compute_hash (fst st) (py_str elem) i of
        Inl e \<Rightarrow> Some (Raised e, st)
      | Inr index \<Rightarrow> advance (mmap_set index 1 st) (At66 rest))"
| "thread_step elem At69 st = Some (At73, st)"
| "thread_step elem At73 st = advance (release resource_update st) Returned"
| "thread_step elem Returned st = None"
| "thread_step elem (Raised e) st = None"

inductive step :: "thread list \<times> state \<Rightarrow> thread list \<times> state \<Rightarrow> bool" where
  "t < length ts \<Longrightarrow> ts ! t = (elem, l) \<Longrightarrow> thread_step elem l st = Some (l', st') \<Longrightarrow>
   step (ts, st) (ts[t := (elem, l')], st')"

definition steps :: "thread list \<times> state \<Rightarrow> thread list \<times> state \<Rightarrow> bool" where
  "steps = step\<^sup>*\<^sup>*"

text \<open>All threads at the first line of \<open>add_elem\<close>; all threads returned.\<close>

definition start :: "elem list \<Rightarrow> thread list" where
  "start es = map (\<lambda>e. (e, At61)) es"

definition final :: "thread list \<Rightarrow> bool" where
  "final ts = list_all (\<lambda>th. snd th = Returned) ts"

text \<open>Which lines hold \<open>serviceQueue\<close>, and which hold \<open>resource\<close> (the writers inside).\<close>

fun holds_gate :: "pc \<Rightarrow> nat" where
  "holds_gate At62 = 1"
| "holds_gate At63 = 1"
| "holds_gate _ = 0"

fun holds_resource :: "pc \<Rightarrow> nat" where
  "holds_resource At63 = 1"
| "holds_resource At65 = 1"
| "holds_resource (At66 _) = 1"
| "holds_resource At69 = 1"
| "holds_resource At73 = 1"
| "holds_resource _ = 0"

definition writers_inside :: "thread list \<Rightarrow> nat" where
  "writers_inside ts = sum_list (map (holds_resource \<circ> snd) ts)"

definition gate_holders :: "thread list \<Rightarrow> nat" where
  "gate_holders ts = sum_list (map (holds_gate \<circ> snd) ts)"

text \<open>The steps a thread has left, with \<open>k\<close> hash functions.\<close>

fun steps_left :: "nat \<Rightarrow> pc \<Rightarrow> nat" where
  "steps_left k At61 = k + 7"
| "steps_left k At62 = k + 6"
| "steps_left k At63 = k + 5"
| "steps_left k At65 = k + 4"
| "steps_left k (At66 rest) = length rest + 3"
| "steps_left k At69 = 2"
| "steps_left k At73 = 1"
| "steps_left k Returned = 0"
| "steps_left k (Raised e) = 0"

definition work_left :: "nat \<Rightarrow> thread list \<Rightarrow> nat" where
  "work_left k ts = sum_list (map (steps_left k \<circ> snd) ts)"

text \<open>The positions a thread has written so far.\<close>

fun written :: "int \<Rightarrow> int \<Rightarrow> thread \<Rightarrow> nat set" where
  "written sz hc (e, At66 rest) = position sz (py_str e) ` (set (py_range hc) - set rest)"
| "written sz hc (e, At69) = position sz (py_str e) ` set (py_range hc)"
| "written sz hc (e, At73) = position sz (py_str e) ` set (py_range hc)"
| "written sz hc (e, Returned) = position sz (py_str e) ` set (py_range hc)"
| "written sz hc (e, _) = {}"

definition all_written :: "int \<Rightarrow> int \<Rightarrow> thread list \<Rightarrow> nat set" where
  "all_written sz hc ts = (\<Union>t \<in> {..<length ts}. written sz hc (ts ! t))"

text \<open>The part of a live filter that the semaphores are not: metadata and mapping.\<close>

definition backed :: "state \<Rightarrow> bool" where
  "backed st \<longleftrightarrow>
     (case dir (snd st) (filename (fst st) @ ''.meta'') of
        None \<Rightarrow> False
      | Some m \<Rightarrow>
         (case inode (snd st) m of
            Some (Pickle sz hc) \<Rightarrow>
              (case inode (snd st) (bit_array (fst st)) of
                 Some (Bytes bs) \<Rightarrow> 0 < sz \<and> int (length bs) = sz
               | _ \<Rightarrow> False)
          | _ \<Rightarrow> False))"

text \<open>What no step changes.\<close>

definition frame :: "state \<Rightarrow> state \<Rightarrow> bool" where
  "frame st0 st \<longleftrightarrow>
     backed st \<and> filename (fst st) = filename (fst st0) \<and>
     bit_array (fst st) = bit_array (fst st0) \<and> dir (snd st) = dir (snd st0) \<and>
     stored_size st = stored_size st0 \<and> stored_hash_count st = stored_hash_count st0 \<and>
     length (mapped st) = length (mapped st0)"

text \<open>Lines after \<open>load_metadata\<close>, where \<open>self.size\<close> and \<open>self.hash_count\<close> are read.\<close>

fun loaded :: "pc \<Rightarrow> bool" where
  "loaded (At66 _) = True"
| "loaded At69 = True"
| "loaded At73 = True"
| "loaded Returned = True"
| "loaded _ = False"

text \<open>The invariant of a run that started from the state \<open>st0\<close>.\<close>

definition invar :: "state \<Rightarrow> thread list \<times> state \<Rightarrow> bool" where
  "invar st0 c \<longleftrightarrow>
     (let ts = fst c; st = snd c; sz = stored_size st0; hc = stored_hash_count st0
      in frame st0 st \<and>
         serviceQueue (fst st) + gate_holders ts = 1 \<and>
         resource (fst st) + writers_inside ts = 1 \<and>
         (\<forall>th \<in> set ts. loaded (snd th) \<longrightarrow> size_bf (fst st) = sz \<and> hash_count (fst st) = hc) \<and>
         (\<forall>th \<in> set ts. \<forall>rest. snd th = At66 rest \<longrightarrow> (\<exists>k. rest = drop k (py_range hc))) \<and>
         (\<forall>th \<in> set ts. \<forall>e. snd th \<noteq> Raised e) \<and>
         (\<forall>q < length (mapped st0).
            mapped st ! q = (if q \<in> all_written sz hc ts then 1 else mapped st0 ! q)))"

section \<open>Properties\<close>

subsection \<open>The digest as an integer\<close>

lemma hex_val_hex_digit: "d < 16 \<Longrightarrow> hex_val (hex_digit d) = Some (int d)"
proof -
  assume d: "d < 16"
  have "list_all (\<lambda>d. hex_val (hex_digit d) = Some (int d)) [0..<16]"
    by code_simp
  with d show ?thesis by (simp add: list_all_iff)
qed

lemma int16_from_hex_byte:
  "int16_from acc (hex_byte b @ cs) = int16_from (256 * acc + uint b) cs"
proof -
  have lt: "unat b < 256" using unsigned_less [of b, where ?'a = nat] by simp
  have hi: "unat b div 16 < 16" using lt by simp
  have lo: "unat b mod 16 < 16" by simp
  have u: "uint b = int (unat b)" by simp
  have "16 * (16 * acc + int (unat b div 16)) + int (unat b mod 16) = 256 * acc + uint b"
    unfolding u by (simp add: zdiv_int zmod_int)
  then show ?thesis
    by (simp only: hex_byte_def append.simps int16_from.simps
          hex_val_hex_digit [OF hi] hex_val_hex_digit [OF lo] option.case)
qed

lemma int16_from_hex:
  "int16_from acc (concat (map hex_byte bs)) = Inr (foldl (\<lambda>acc b. 256 * acc + uint b) acc bs)"
  by (induction bs arbitrary: acc) (simp_all add: int16_from_hex_byte)

lemma length_state_bytes: "length (state_bytes v) = 32"
  by (cases v rule: state_bytes.cases) (simp add: word_bytes_def)

lemma length_sha256: "length (sha256 m) = 32"
  by (simp add: sha256_def length_state_bytes)

lemma be_int_from_nonneg: "0 \<le> acc \<Longrightarrow> 0 \<le> foldl (\<lambda>acc b. 256 * acc + uint b) acc bs"
  by (induction bs arbitrary: acc) simp_all

lemma be_int_from_bound:
  fixes bs :: "byte list"
  shows "foldl (\<lambda>acc b. 256 * acc + uint b) acc bs < (acc + 1) * 256 ^ length bs"
proof (induction bs arbitrary: acc)
  case Nil
  then show ?case by simp
next
  case (Cons b bs)
  have "uint b < 256" using uint_lt2p [of b] by simp
  then have "(256 * acc + uint b + 1) \<le> (acc + 1) * 256" by simp
  then have "(256 * acc + uint b + 1) * 256 ^ length bs \<le> (acc + 1) * 256 * 256 ^ length bs"
    by (rule mult_right_mono) simp
  also have "\<dots> = (acc + 1) * 256 ^ length (b # bs)" by simp
  finally have le: "(256 * acc + uint b + 1) * 256 ^ length bs \<le> (acc + 1) * 256 ^ length (b # bs)" .
  have "foldl (\<lambda>acc b. 256 * acc + uint b) acc (b # bs)
      = foldl (\<lambda>acc b. 256 * acc + uint b) (256 * acc + uint b) bs" by simp
  also have "\<dots> < (256 * acc + uint b + 1) * 256 ^ length bs" by (rule Cons.IH)
  finally show ?case using le by (rule less_le_trans)
qed

text \<open>Reading the hexadecimal digest in base 16 never raises: it is the digest as a
  big-endian integer, below \<open>2 ^ 256\<close>.\<close>

lemma int16_hexdigest: "int16 (hexdigest m) = Inr (be_int (sha256 m))"
proof -
  have "sha256 m \<noteq> []" using length_sha256 [of m] by auto
  then have "hexdigest m \<noteq> []"
    by (cases "sha256 m") (simp_all add: hexdigest_def hex_byte_def)
  then show ?thesis
    by (simp add: int16_def be_int_def) (simp add: hexdigest_def int16_from_hex)
qed

lemma be_int_sha256_range: "0 \<le> be_int (sha256 m) \<and> be_int (sha256 m) < 2 ^ 256"
proof -
  have "be_int (sha256 m) < (0 + 1) * 256 ^ length (sha256 m)"
    unfolding be_int_def by (rule be_int_from_bound)
  then have "be_int (sha256 m) < 256 ^ 32" by (simp add: length_sha256)
  moreover have "(256::int) ^ 32 = 2 ^ 256" by simp
  ultimately show ?thesis by (simp add: be_int_def be_int_from_nonneg)
qed

text \<open>
  Known answers: the digest of "abc" (FIPS 180-4, appendix B.1), the two bytes of a
  code point above 127, and the position that hash 0 gives the driver's element 1, which
  is the digest of "10" modulo 479.
\<close>

lemma sha256_abc:
  "hexdigest (encode ''abc'') = ''ba7816bf8f01cfea414140de5dae2223b00361a396177a9cb410ff61f20015ad''"
  by code_simp

lemma encode_e_acute: "encode [char_of (233::nat)] = [0xC3, 0xA9]"
  by (simp add: encode_def utf8_char_def)

lemma compute_hash_driver_1_0:
  "compute_hash driver_self (py_str (IntE 1)) 0 = Inr 254"
  by code_simp

lemma compute_hash_eq:
  "size_bf self \<noteq> 0 \<Longrightarrow>
   compute_hash self elem i = Inr (be_int (sha256 (encode (elem @ str_int i))) mod size_bf self)"
  by (simp add: compute_hash_def int16_hexdigest)

lemma compute_hash_position:
  "0 < size_bf self \<Longrightarrow> compute_hash self elem i = Inr (int (position (size_bf self) elem i))"
  by (simp add: compute_hash_eq position_def)

lemma position_less: "0 < sz \<Longrightarrow> int (position sz elem i) < sz"
  by (simp add: position_def)

subsection \<open>The two loops and the two calls on a live filter\<close>

lemma length_set_bits: "length (set_bits bs ps) = length bs"
  unfolding set_bits_def by (induction ps arbitrary: bs) simp_all

lemma set_bits_Cons: "set_bits bs (p # ps) = set_bits (bs[p := 1]) ps"
  by (simp add: set_bits_def)

lemma set_bits_Nil: "set_bits bs [] = bs"
  by (simp add: set_bits_def)

lemma set_bits_keeps: "q < length bs \<Longrightarrow> bs ! q = 1 \<Longrightarrow> set_bits bs ps ! q = 1"
proof (induction ps arbitrary: bs)
  case Nil
  then show ?case by (simp add: set_bits_Nil)
next
  case (Cons p ps)
  have "bs[p := 1] ! q = 1" using Cons.prems by (cases "p = q") simp_all
  then show ?case using Cons.IH [of "bs[p := 1]"] Cons.prems by (simp add: set_bits_Cons)
qed

lemma set_bits_sets: "p \<in> set ps \<Longrightarrow> p < length bs \<Longrightarrow> set_bits bs ps ! p = 1"
proof (induction ps arbitrary: bs)
  case Nil
  then show ?case by simp
next
  case (Cons a ps)
  show ?case
  proof (cases "a = p")
    case True
    then have "bs[a := 1] ! p = 1" using Cons.prems by simp
    then show ?thesis using Cons.prems set_bits_keeps [of p "bs[a := 1]" ps]
      by (simp add: set_bits_Cons)
  next
    case False
    then show ?thesis using Cons by (simp add: set_bits_Cons)
  qed
qed

lemma set_bits_other: "q \<notin> set ps \<Longrightarrow> set_bits bs ps ! q = bs ! q"
proof (induction ps arbitrary: bs)
  case Nil
  then show ?case by (simp add: set_bits_Nil)
next
  case (Cons a ps)
  then show ?case by (simp add: set_bits_Cons)
qed

lemma mmap_index_nat: "p < length bs \<Longrightarrow> mmap_index bs (int p) = Some p"
  by (simp add: mmap_index_def)

lemma add_loop_returns:
  assumes "inode w (bit_array b) = Some (Bytes bs)" and "int (length bs) = size_bf b"
    and "0 < size_bf b"
  shows "add_loop e js (b, w) =
     Returns () (b, w\<lparr>inode := (inode w)(bit_array b \<mapsto>
        Bytes (set_bits bs (map (position (size_bf b) e) js)))\<rparr>)"
  using assms
proof (induction js arbitrary: bs w)
  case Nil
  then have "(inode w)(bit_array b \<mapsto> Bytes bs) = inode w" by (simp add: fun_upd_idem)
  then show ?case by (simp add: set_bits_Nil)
next
  case (Cons j js)
  let ?p = "position (size_bf b) e j"
  let ?w = "w\<lparr>inode := (inode w)(bit_array b \<mapsto> Bytes (bs[?p := 1]))\<rparr>"
  have lt: "?p < length bs"
    using position_less [OF Cons.prems(3), of e j] Cons.prems(2) by simp
  have step: "mmap_set (int ?p) 1 (b, w) = Returns () (b, ?w)"
    using Cons.prems(1) by (simp add: mmap_set_def mmap_index_nat [OF lt])
  have ih: "add_loop e js (b, ?w) =
     Returns () (b, ?w\<lparr>inode := (inode ?w)(bit_array b \<mapsto>
        Bytes (set_bits (bs[?p := 1]) (map (position (size_bf b) e) js)))\<rparr>)"
    by (rule Cons.IH) (use Cons.prems in simp_all)
  have eq: "?w\<lparr>inode := (inode ?w)(bit_array b \<mapsto> X)\<rparr>
      = w\<lparr>inode := (inode w)(bit_array b \<mapsto> X)\<rparr>" for X
    by simp
  show ?case
    by (simp only: add_loop.simps fst_conv compute_hash_position [OF Cons.prems(3)] sum.case
          step and_then.simps ih eq list.map set_bits_Cons)
qed

lemma check_loop_returns:
  assumes "inode w (bit_array b) = Some (Bytes bs)" and "int (length bs) = size_bf b"
    and "0 < size_bf b"
  shows "check_loop e js (b, w) =
     Returns (list_all (\<lambda>p. bs ! p = 1) (map (position (size_bf b) e) js)) (b, w)"
proof (induction js)
  case Nil
  then show ?case by simp
next
  case (Cons j js)
  let ?p = "position (size_bf b) e j"
  have lt: "?p < length bs"
    using position_less [OF assms(3), of e j] assms(2) by simp
  have get: "mmap_get (int ?p) (b, w) = Returns (bs ! ?p) (b, w)"
    using assms(1) by (simp add: mmap_get_def mmap_index_nat [OF lt])
  show ?case
    by (simp add: compute_hash_position [OF assms(3)] get Cons.IH)
qed


lemma acquire_serviceQueue:
  "acquire serviceQueue serviceQueue_update (b, w) =
     (if serviceQueue b = 0 then Hangs else Returns () (b\<lparr>serviceQueue := serviceQueue b - 1\<rparr>, w))"
  by (cases b) (simp add: acquire_def)

lemma acquire_resource:
  "acquire resource resource_update (b, w) =
     (if resource b = 0 then Hangs else Returns () (b\<lparr>resource := resource b - 1\<rparr>, w))"
  by (cases b) (simp add: acquire_def)

lemma acquire_rmutex:
  "acquire rmutex rmutex_update (b, w) =
     (if rmutex b = 0 then Hangs else Returns () (b\<lparr>rmutex := rmutex b - 1\<rparr>, w))"
  by (cases b) (simp add: acquire_def)

lemma release_serviceQueue:
  "release serviceQueue_update (b, w) = Returns () (b\<lparr>serviceQueue := serviceQueue b + 1\<rparr>, w)"
  by (cases b) (simp add: release_def)

lemma release_resource:
  "release resource_update (b, w) = Returns () (b\<lparr>resource := resource b + 1\<rparr>, w)"
  by (cases b) (simp add: release_def)

lemma release_rmutex:
  "release rmutex_update (b, w) = Returns () (b\<lparr>rmutex := rmutex b + 1\<rparr>, w)"
  by (cases b) (simp add: release_def)

lemmas semaphore_simps =
  acquire_serviceQueue acquire_resource acquire_rmutex
  release_serviceQueue release_resource release_rmutex

lemma live_cases:
  assumes "live (b, w)"
  obtains m sz hc bs where
    "dir w (filename b @ ''.meta'') = Some m" and "inode w m = Some (Pickle sz hc)"
    and "inode w (bit_array b) = Some (Bytes bs)" and "0 < sz" and "int (length bs) = sz"
    and "resource b = 1" and "rmutex b = 1" and "serviceQueue b = 1" and "readcount b = 0"
  using assms unfolding live_def
  by (auto split: option.splits content.splits)

lemma add_elem_live:
  assumes "live st"
  shows "\<exists>st'. add_elem e st = Returns () st' \<and> live st' \<and>
     filename (fst st') = filename (fst st) \<and> bit_array (fst st') = bit_array (fst st) \<and>
     dir (snd st') = dir (snd st) \<and>
     stored_size st' = stored_size st \<and> stored_hash_count st' = stored_hash_count st \<and>
     mapped st' = set_bits (mapped st)
        (positions (stored_size st) (stored_hash_count st) (py_str e))"
proof -
  obtain b w where st: "st = (b, w)" by (cases st)
  from assms obtain m sz hc bs where
    meta: "dir w (filename b @ ''.meta'') = Some m" and pick: "inode w m = Some (Pickle sz hc)"
    and arr: "inode w (bit_array b) = Some (Bytes bs)" and pos: "0 < sz"
    and len: "int (length bs) = sz"
    and sems: "resource b = 1" "rmutex b = 1" "serviceQueue b = 1" "readcount b = 0"
    unfolding st by (rule live_cases)
  have ne: "m \<noteq> bit_array b" using pick arr by auto
  have run: "add_elem e (b, w) =
     Returns () (b\<lparr>size_bf := sz, hash_count := hc\<rparr>,
      w\<lparr>inode := (inode w)(bit_array b \<mapsto>
        Bytes (set_bits bs (positions sz hc (py_str e))))\<rparr>)"
    using arr pos len sems
    by (simp add: add_elem_def semaphore_simps load_metadata_def meta pick
          add_loop_returns [where bs = bs] positions_def)
  show ?thesis
    unfolding st run using meta pick arr pos len ne sems
    by (simp add: live_def stored_size_def stored_hash_count_def mapped_def length_set_bits)
qed


lemma check_member_live:
  assumes "live st"
  shows "\<exists>b'. check_member e st =
       Returns (list_all (\<lambda>p. mapped st ! p = 1)
                  (positions (stored_size st) (stored_hash_count st) (py_str e))) (b', snd st) \<and>
     live (b', snd st) \<and> filename b' = filename (fst st) \<and> bit_array b' = bit_array (fst st)"
proof -
  obtain b w where st: "st = (b, w)" by (cases st)
  from assms obtain m sz hc bs where
    meta: "dir w (filename b @ ''.meta'') = Some m" and pick: "inode w m = Some (Pickle sz hc)"
    and arr: "inode w (bit_array b) = Some (Bytes bs)" and pos: "0 < sz"
    and len: "int (length bs) = sz"
    and sems: "resource b = 1" "rmutex b = 1" "serviceQueue b = 1" "readcount b = 0"
    unfolding st by (rule live_cases)
  have run: "check_member e (b, w) =
     Returns (list_all (\<lambda>p. bs ! p = 1) (positions sz hc (py_str e)))
       (b\<lparr>size_bf := sz, hash_count := hc\<rparr>, w)"
    using arr pos len sems
    by (simp add: check_member_def reader_entry_def reader_exit_def semaphore_simps
          load_metadata_def meta pick check_loop_returns [where bs = bs] positions_def)
  show ?thesis
    unfolding st run using meta pick arr pos len sems
    by (simp add: live_def stored_size_def stored_hash_count_def mapped_def)
qed


lemma add_all_live:
  assumes "live st"
  shows "\<exists>st'. add_all es st = Returns () st' \<and> live st' \<and>
     filename (fst st') = filename (fst st) \<and> bit_array (fst st') = bit_array (fst st) \<and>
     stored_size st' = stored_size st \<and> stored_hash_count st' = stored_hash_count st \<and>
     length (mapped st') = length (mapped st) \<and>
     (\<forall>q < length (mapped st). mapped st ! q = 1 \<longrightarrow> mapped st' ! q = 1)"
  using assms
proof (induction es arbitrary: st)
  case Nil
  then show ?case by simp
next
  case (Cons x xs)
  from add_elem_live [OF Cons.prems, of x] obtain s1 where
    a: "add_elem x st = Returns () s1" and l: "live s1"
    and same: "filename (fst s1) = filename (fst st)" "bit_array (fst s1) = bit_array (fst st)"
      "stored_size s1 = stored_size st" "stored_hash_count s1 = stored_hash_count st"
    and m: "mapped s1 = set_bits (mapped st)
        (positions (stored_size st) (stored_hash_count st) (py_str x))"
    by blast
  from Cons.IH [OF l] obtain s2 where
    b: "add_all xs s1 = Returns () s2" and l2: "live s2"
    and same2: "filename (fst s2) = filename (fst s1)" "bit_array (fst s2) = bit_array (fst s1)"
      "stored_size s2 = stored_size s1" "stored_hash_count s2 = stored_hash_count s1"
      "length (mapped s2) = length (mapped s1)"
    and keep: "\<forall>q < length (mapped s1). mapped s1 ! q = 1 \<longrightarrow> mapped s2 ! q = 1"
    by blast
  have len: "length (mapped s1) = length (mapped st)" by (simp add: m length_set_bits)
  have "mapped s2 ! q = 1" if "q < length (mapped st)" and "mapped st ! q = 1" for q
  proof -
    have "mapped s1 ! q = 1" unfolding m using that by (rule set_bits_keeps)
    with keep that len show ?thesis by simp
  qed
  then show ?case using a b l2 same same2 len by simp
qed

lemma live_stored_size: "live st \<Longrightarrow> 0 < stored_size st \<and> int (length (mapped st)) = stored_size st"
  by (cases st) (auto simp: live_def stored_size_def mapped_def split: option.splits content.splits)

lemma positions_less:
  "0 < sz \<Longrightarrow> p \<in> set (positions sz hc elem) \<Longrightarrow> int p < sz"
  by (auto simp: positions_def position_less)

text \<open>
  An element whose string is the one that was added is found, whatever was added in
  between.
\<close>

lemma add_then_check:
  assumes "live st" and "py_str e' = py_str e"
  shows "\<exists>st1 st2 st3. add_elem e st = Returns () st1 \<and>
     list_all (\<lambda>p. mapped st1 ! p = 1)
       (positions (stored_size st) (stored_hash_count st) (py_str e)) \<and>
     add_all es st1 = Returns () st2 \<and>
     check_member e' st2 = Returns True st3"
proof -
  let ?ps = "positions (stored_size st) (stored_hash_count st) (py_str e)"
  from add_elem_live [OF assms(1), of e] obtain s1 where
    a: "add_elem e st = Returns () s1" and l: "live s1"
    and same: "stored_size s1 = stored_size st" "stored_hash_count s1 = stored_hash_count st"
    and m: "mapped s1 = set_bits (mapped st) ?ps"
    by blast
  have lt: "p < length (mapped st)" if "p \<in> set ?ps" for p
    using positions_less [OF _ that] live_stored_size [OF assms(1)] by simp
  have set1: "mapped s1 ! p = 1" if "p \<in> set ?ps" for p
    unfolding m using that lt [OF that] by (rule set_bits_sets)
  from add_all_live [OF l, of es] obtain s2 where
    b: "add_all es s1 = Returns () s2" and l2: "live s2"
    and same2: "stored_size s2 = stored_size s1" "stored_hash_count s2 = stored_hash_count s1"
    and keep: "\<forall>q < length (mapped s1). mapped s1 ! q = 1 \<longrightarrow> mapped s2 ! q = 1"
    by blast
  have len: "length (mapped s1) = length (mapped st)" by (simp add: m length_set_bits)
  have set2: "mapped s2 ! p = 1" if "p \<in> set ?ps" for p
    using keep set1 [OF that] lt [OF that] len by simp
  from check_member_live [OF l2, of e'] obtain b' where
    "check_member e' s2 = Returns (list_all (\<lambda>p. mapped s2 ! p = 1)
        (positions (stored_size s2) (stored_hash_count s2) (py_str e'))) (b', snd s2)"
    by blast
  moreover have "list_all (\<lambda>p. mapped s2 ! p = 1)
        (positions (stored_size s2) (stored_hash_count s2) (py_str e'))"
    using set2 by (simp add: same same2 assms(2) list_all_iff)
  ultimately have c: "check_member e' s2 = Returns True (b', snd s2)" by simp
  have "list_all (\<lambda>p. mapped s1 ! p = 1) ?ps" using set1 by (simp add: list_all_iff)
  with a b c show ?thesis by blast
qed

lemma live_driver: "live (driver_self, driver_world)"
  by (simp add: live_def driver_self_def driver_world_def)

text \<open>
  C1. On a live filter with one thread, \<open>add_elem e\<close> returns and leaves the byte 1 at
  every position it computed for \<open>e\<close>; \<open>check_member\<close> answers, for any element, whether
  the bytes at the positions computed in the same way are all 1; so \<open>check_member e\<close>
  returns True, also when further elements were added in between.
\<close>

theorem no_false_negatives:
  assumes "live st"
  shows "\<exists>st1 st2 st3. add_elem e st = Returns () st1 \<and>
     list_all (\<lambda>p. mapped st1 ! p = 1)
       (positions (stored_size st) (stored_hash_count st) (py_str e)) \<and>
     (\<forall>e'. answer_of (check_member e' st1) =
        Value (list_all (\<lambda>p. mapped st1 ! p = 1)
                 (positions (stored_size st) (stored_hash_count st) (py_str e')))) \<and>
     add_all es st1 = Returns () st2 \<and>
     check_member e st2 = Returns True st3"
proof -
  from add_then_check [OF assms refl, of e es] obtain st1 st2 st3 where
    a: "add_elem e st = Returns () st1"
    and p: "list_all (\<lambda>p. mapped st1 ! p = 1)
       (positions (stored_size st) (stored_hash_count st) (py_str e))"
    and r: "add_all es st1 = Returns () st2" "check_member e st2 = Returns True st3"
    by blast
  from add_elem_live [OF assms, of e] a have l: "live st1"
    and same: "stored_size st1 = stored_size st" "stored_hash_count st1 = stored_hash_count st"
    by auto
  have "answer_of (check_member e' st1) =
        Value (list_all (\<lambda>p. mapped st1 ! p = 1)
                 (positions (stored_size st) (stored_hash_count st) (py_str e')))" for e'
    using check_member_live [OF l, of e'] by (auto simp: same)
  with a p r show ?thesis by blast
qed

theorem no_false_negatives_witness:
  "live (driver_self, driver_world) \<and>
   (\<exists>st1 st2 st3. add_elem (IntE 1) (driver_self, driver_world) = Returns () st1 \<and>
     list_all (\<lambda>p. mapped st1 ! p = 1) (positions 479 3 ''1'') \<and>
     (\<forall>e'. answer_of (check_member e' st1) =
        Value (list_all (\<lambda>p. mapped st1 ! p = 1) (positions 479 3 (py_str e')))) \<and>
     add_all [StrE ''abc'', StrE ''def''] st1 = Returns () st2 \<and>
     check_member (IntE 1) st2 = Returns True st3)"
proof -
  have d: "stored_size (driver_self, driver_world) = 479"
    "stored_hash_count (driver_self, driver_world) = 3"
    by (simp_all add: stored_size_def stored_hash_count_def driver_self_def driver_world_def)
  have one: "py_str (IntE 1) = ''1''" by (simp add: str_int_def digit_char_def)
  show ?thesis
    using no_false_negatives [OF live_driver, of "IntE 1" "[StrE ''abc'', StrE ''def'']"]
      live_driver
    unfolding d one by simp
qed



subsection \<open>Bounds on the logarithms of the constructor\<close>

text \<open>Partial sums of the exponential series bound \<open>exp\<close>, and through it \<open>ln\<close>.\<close>

lemma exp_ge_partial_sum:
  fixes x :: real
  assumes "0 \<le> x"
  shows "(\<Sum>m<n. x ^ m / fact m) \<le> exp x"
proof -
  from Maclaurin_exp_le [of x n] obtain t where
    "exp x = (\<Sum>m<n. x ^ m / fact m) + exp t / fact n * x ^ n" by blast
  moreover have "0 \<le> exp t / fact n * x ^ n" using assms by simp
  ultimately show ?thesis by linarith
qed

lemma exp_le_partial_sum:
  fixes x :: real
  assumes "0 \<le> x" and "x \<le> 1"
  shows "exp x \<le> (\<Sum>m<n. x ^ m / fact m) + 3 * x ^ n / fact n"
proof -
  from Maclaurin_exp_le [of x n] obtain t where
    t: "\<bar>t\<bar> \<le> \<bar>x\<bar>" and e: "exp x = (\<Sum>m<n. x ^ m / fact m) + exp t / fact n * x ^ n"
    by blast
  have "t \<le> 1" using t assms by linarith
  then have "exp t \<le> exp 1" by simp
  also have "\<dots> \<le> 3" by (rule exp_le)
  finally have "exp t \<le> 3" .
  then have "exp t * (x ^ n / fact n) \<le> 3 * (x ^ n / fact n)"
    by (rule mult_right_mono) (use assms in simp)
  then show ?thesis using e by (simp add: field_simps)
qed

lemma ln_ge_by_exp:
  fixes x :: real
  assumes "0 \<le> a" and "a \<le> 1" and "(\<Sum>m<n. a ^ m / fact m) + 3 * a ^ n / fact n \<le> x"
  shows "a \<le> ln x"
proof -
  have "exp a \<le> x" using exp_le_partial_sum [OF assms(1,2), of n] assms(3) by linarith
  moreover have "0 < x" using \<open>exp a \<le> x\<close> exp_gt_zero [of a] by linarith
  ultimately show ?thesis by (simp add: ln_ge_iff)
qed

lemma ln_le_by_exp:
  fixes x :: real
  assumes "0 \<le> b" and "0 < x" and "x \<le> (\<Sum>m<n. b ^ m / fact m)"
  shows "ln x \<le> b"
proof -
  have "x \<le> exp b" using exp_ge_partial_sum [OF assms(1), of n] assms(3) by linarith
  then have "ln x \<le> ln (exp b)" using assms(2) by (subst ln_le_cancel_iff) simp_all
  then show ?thesis by simp
qed

lemma ln_2_lower: "6931 / 10000 \<le> ln (2::real)"
  by (rule ln_ge_by_exp [where n = 8]) (simp_all add: lessThan_Suc eval_nat_numeral fact_numeral)

lemma ln_2_upper: "ln (2::real) \<le> 6932 / 10000"
  by (rule ln_le_by_exp [where n = 8]) (simp_all add: lessThan_Suc eval_nat_numeral fact_numeral)

lemma ln_5_4_lower: "2231 / 10000 \<le> ln (5 / 4 :: real)"
  by (rule ln_ge_by_exp [where n = 6]) (simp_all add: lessThan_Suc eval_nat_numeral fact_numeral)

lemma ln_5_4_upper: "ln (5 / 4 :: real) \<le> 2232 / 10000"
  by (rule ln_le_by_exp [where n = 6]) (simp_all add: lessThan_Suc eval_nat_numeral fact_numeral)

lemma ln_10_eq: "ln (10::real) = 3 * ln 2 + ln (5 / 4)"
proof -
  have "ln (10::real) = ln (2 ^ 3 * (5 / 4))" by simp
  also have "\<dots> = ln (2 ^ 3) + ln (5 / 4 :: real)" by (rule ln_mult_pos) simp_all
  also have "ln ((2::real) ^ 3) = 3 * ln 2" using ln_realpow [of "2::real" 3] by simp
  finally show ?thesis .
qed

lemma ln_10_bounds: "23024 / 10000 \<le> ln (10::real) \<and> ln (10::real) \<le> 23028 / 10000"
  using ln_2_lower ln_2_upper ln_5_4_lower ln_5_4_upper unfolding ln_10_eq by linarith

lemma ln_2_sq_bounds: "4803 / 10000 \<le> (ln (2::real))\<^sup>2 \<and> (ln (2::real))\<^sup>2 \<le> 4806 / 10000"
proof -
  have "(6931 / 10000 :: real)\<^sup>2 \<le> (ln 2)\<^sup>2"
    by (rule power_mono [OF ln_2_lower]) simp
  moreover have "(ln (2::real))\<^sup>2 \<le> (6932 / 10000)\<^sup>2"
    by (rule power_mono [OF ln_2_upper]) simp
  ultimately show ?thesis by (simp add: power2_eq_square)
qed

lemma ln_100_47_bounds: "1 / 2 \<le> ln (100 / 47 :: real) \<and> ln (100 / 47 :: real) \<le> 96 / 100"
proof
  show "1 / 2 \<le> ln (100 / 47 :: real)"
    by (rule ln_ge_by_exp [where n = 4]) (simp_all add: lessThan_Suc eval_nat_numeral fact_numeral)
  show "ln (100 / 47 :: real) \<le> 96 / 100"
    by (rule ln_le_by_exp [where n = 4]) (simp_all add: lessThan_Suc eval_nat_numeral fact_numeral)
qed


lemma py_int_floor: "0 \<le> x \<Longrightarrow> py_int x = \<lfloor>x\<rfloor>"
  by (simp add: py_int_def)

lemma py_int_eq: "0 \<le> real_of_int z \<Longrightarrow> real_of_int z \<le> x \<Longrightarrow> x < real_of_int z + 1 \<Longrightarrow> py_int x = z"
  by (simp add: py_int_def floor_unique)

lemma derive_size_100: "derive_size 100 (1 / 10) = 479"
proof -
  have l: "ln (1 / 10 :: real) = - ln 10" by (simp add: ln_div)
  have sq: "0 < (ln (2::real))\<^sup>2" using ln_2_sq_bounds by linarith
  have lo: "479 * (ln (2::real))\<^sup>2 \<le> 100 * ln 10" using ln_2_sq_bounds ln_10_bounds by linarith
  have hi: "100 * ln (10::real) < 480 * (ln 2)\<^sup>2" using ln_2_sq_bounds ln_10_bounds by linarith
  have "479 \<le> 100 * ln (10::real) / (ln 2)\<^sup>2" using lo sq by (simp add: pos_le_divide_eq)
  moreover have "100 * ln (10::real) / (ln 2)\<^sup>2 < 480" using hi sq by (simp add: pos_divide_less_eq)
  ultimately show ?thesis
    unfolding derive_size_def l by (intro py_int_eq) simp_all
qed

lemma derive_hash_count_479: "derive_hash_count 479 100 = 3"
  unfolding derive_hash_count_def
  using ln_2_lower ln_2_upper by (intro py_int_eq) simp_all


lemma ln_100_48_lower: "1 / 2 \<le> ln (100 / 48 :: real)"
  by (rule ln_ge_by_exp [where n = 4]) (simp_all add: lessThan_Suc eval_nat_numeral fact_numeral)

lemma neg_ln_rate_lower:
  fixes p :: real
  assumes "0 < p" and "p < 48 / 100"
  shows "1 / 2 \<le> - ln p"
proof -
  have "ln p \<le> ln (48 / 100 :: real)" using assms by simp
  also have "ln (48 / 100 :: real) = - ln (100 / 48)" by (simp add: ln_div)
  finally show ?thesis using ln_100_48_lower by linarith
qed



lemma derive_hash_count_valid:
  assumes "0 < n" and "0 < sz"
  shows "derive_hash_count sz n = \<lfloor>real_of_int sz / real_of_int n * ln 2\<rfloor>"
    and "0 \<le> derive_hash_count sz n"
proof -
  have "0 \<le> real_of_int sz / real_of_int n * ln 2" using assms by simp
  then show eq: "derive_hash_count sz n = \<lfloor>real_of_int sz / real_of_int n * ln 2\<rfloor>"
    by (simp add: derive_hash_count_def py_int_def)
  show "0 \<le> derive_hash_count sz n" unfolding eq using assms by simp
qed

lemma write_file_new:
  "dir w path = None \<Longrightarrow>
   write_file path c w =
     w\<lparr>dir := (dir w)(path \<mapsto> next_ino w), inode := (inode w)(next_ino w \<mapsto> c),
       next_ino := Suc (next_ino w)\<rparr>"
  by (simp add: write_file_def)

lemma init_returns:
  assumes "0 < p" and "p < 48 / 100" and "n \<noteq> 0" and "0 < derive_size n p"
  shows "init n p f w =
     Returns \<lparr>size_bf = derive_size n p, hash_count = derive_hash_count (derive_size n p) n,
              filename = f, readcount = 0, resource = 1, rmutex = 1, serviceQueue = 1,
              bit_array = next_ino w\<rparr>
       (write_file (f @ ''.meta'') (Pickle (derive_size n p) (derive_hash_count (derive_size n p) n))
          (w\<lparr>dir := (dir w)(f \<mapsto> next_ino w),
             inode := (inode w)(next_ino w \<mapsto> Bytes (replicate (nat (derive_size n p)) 0)),
             next_ino := Suc (next_ino w)\<rparr>))"
  using assms
  by (simp add: init_def Let_def path_exists_def write_file_new mmap_file_def save_metadata_def)




subsection \<open>The parameters the constructor derives\<close>

lemma init_driver:
  "init 100 (1 / 10) f w =
     Returns \<lparr>size_bf = 479, hash_count = 3, filename = f, readcount = 0, resource = 1,
              rmutex = 1, serviceQueue = 1, bit_array = next_ino w\<rparr>
       (write_file (f @ ''.meta'') (Pickle 479 3)
          (w\<lparr>dir := (dir w)(f \<mapsto> next_ino w),
             inode := (inode w)(next_ino w \<mapsto> Bytes (replicate 479 0)),
             next_ino := Suc (next_ino w)\<rparr>))"
  using init_returns [of "1 / 10" 100 f w]
  by (simp add: derive_size_100 derive_hash_count_479)

lemma init_driver_empty:
  "init 100 (1 / 10) ''bloom_filter.bin'' empty_world = Returns driver_self driver_world"
  unfolding init_driver
  by (simp add: empty_world_def driver_self_def driver_world_def write_file_def)

lemma size_100_margin:
  fixes d :: real
  assumes "\<bar>d\<bar> \<le> 1 / 100"
  shows "py_int (- real_of_int 100 * ln (1 / 10) / (ln 2)\<^sup>2 + d) = 479"
proof -
  have l: "ln (1 / 10 :: real) = - ln 10" by (simp add: ln_div)
  have sq: "0 < (ln (2::real))\<^sup>2" using ln_2_sq_bounds by linarith
  have lo: "47901 / 100 * (ln (2::real))\<^sup>2 \<le> 100 * ln 10"
    using ln_2_sq_bounds ln_10_bounds by linarith
  have hi: "100 * ln (10::real) \<le> 47998 / 100 * (ln 2)\<^sup>2"
    using ln_2_sq_bounds ln_10_bounds by linarith
  have "47901 / 100 \<le> 100 * ln (10::real) / (ln 2)\<^sup>2"
    using lo sq by (simp only: pos_le_divide_eq)
  moreover have "100 * ln (10::real) / (ln 2)\<^sup>2 \<le> 47998 / 100"
    using hi sq by (simp only: pos_divide_le_eq)
  ultimately show ?thesis
    unfolding l using assms by (intro py_int_eq) (simp_all add: abs_le_iff)
qed

lemma hash_count_479_margin:
  fixes d :: real
  assumes "\<bar>d\<bar> \<le> 1 / 100"
  shows "py_int (real_of_int 479 / real_of_int 100 * ln 2 + d) = 3"
  using ln_2_lower ln_2_upper assms by (intro py_int_eq) (simp_all add: abs_le_iff)

text \<open>
  C4. \<^verbatim>\<open>BloomFilter(100, 0.1)\<close> returns a filter with \<open>size = 479\<close> and
  \<open>hash_count = 3\<close>, at any path and on any file system; on an empty file system it is
  the driver's filter. Neither value is at a rounding boundary: an error of up to 0.01 in
  the float that \<open>int\<close> truncates leaves both as they are.
\<close>

theorem driver_parameters:
  "(\<exists>self w'. init 100 (1 / 10) f w = Returns self w' \<and> size_bf self = 479 \<and> hash_count self = 3)
   \<and> init 100 (1 / 10) ''bloom_filter.bin'' empty_world = Returns driver_self driver_world
   \<and> size_bf driver_self = 479 \<and> hash_count driver_self = 3
   \<and> (\<bar>d\<bar> \<le> 1 / 100 \<longrightarrow>
        py_int (- real_of_int 100 * ln (1 / 10) / (ln 2)\<^sup>2 + d) = 479 \<and>
        py_int (real_of_int 479 / real_of_int 100 * ln 2 + d) = 3)"
proof (intro conjI impI)
  show "\<exists>self w'. init 100 (1 / 10) f w = Returns self w' \<and> size_bf self = 479 \<and> hash_count self = 3"
    unfolding init_driver by simp
  show "init 100 (1 / 10) ''bloom_filter.bin'' empty_world = Returns driver_self driver_world"
    by (rule init_driver_empty)
  show "py_int (- real_of_int 100 * ln (1 / 10) / (ln 2)\<^sup>2 + d) = 479" if "\<bar>d\<bar> \<le> 1 / 100"
    using that by (rule size_100_margin)
  show "py_int (real_of_int 479 / real_of_int 100 * ln 2 + d) = 3" if "\<bar>d\<bar> \<le> 1 / 100"
    using that by (rule hash_count_479_margin)
qed (simp_all add: driver_self_def)

theorem driver_parameters_witness:
  "(\<exists>self w'. init 100 (1 / 10) ''some/other/path'' driver_world = Returns self w' \<and>
      size_bf self = 479 \<and> hash_count self = 3)
   \<and> init 100 (1 / 10) ''bloom_filter.bin'' empty_world = Returns driver_self driver_world
   \<and> size_bf driver_self = 479 \<and> hash_count driver_self = 3
   \<and> \<bar>- 1 / 100 :: real\<bar> \<le> 1 / 100
   \<and> py_int (- real_of_int 100 * ln (1 / 10) / (ln 2)\<^sup>2 + (- 1 / 100)) = 479
   \<and> py_int (real_of_int 479 / real_of_int 100 * ln 2 + (- 1 / 100)) = 3"
  using driver_parameters [of "''some/other/path''" driver_world "- 1 / 100"] by simp

subsection \<open>Line 33 on an arithmetic that rounds\<close>

text \<open>
  On exact arithmetic the constructor is the one above, at the rates on which the double
  of \<open>0.48\<close> and the real \<open>0.48\<close> agree.
\<close>

lemma lit_048_less: "lit_048 < 48 / 100"
  by (simp add: lit_048_def)

lemma init_fl_exact:
  assumes "p < lit_048 \<or> 48 / 100 \<le> p"
  shows "init_fl exact_arith n p f w = init n p f w"
proof -
  have "p < lit_048 \<longleftrightarrow> p < 48 / 100" using assms lit_048_less by linarith
  then show ?thesis
    by (simp add: init_fl_def init_def derive_size_fl_def size_float_def exact_arith_def
          derive_size_def derive_hash_count_def derive_hash_count_fl_def max_cache_size_def
          Let_def)
qed

lemma near_pos:
  assumes "near u r y" and "0 \<le> y"
  shows "y * (1 - u) \<le> r" and "r \<le> y * (1 + u)"
  using assms by (simp_all add: near_def abs_le_iff algebra_simps)

lemma near_neg:
  assumes "near u r (- y)" and "0 \<le> y"
  shows "y * (1 - u) \<le> - r" and "- r \<le> y * (1 + u)"
  using assms by (simp_all add: near_def abs_le_iff algebra_simps)

text \<open>
  The six roundings of line 33, one after the other: the double that \<open>int\<close> receives
  lies between the real value times \<open>round_lo u\<close> and the real value times \<open>round_hi u\<close>.
\<close>

lemma size_float_bounds:
  fixes p u :: real
  assumes n: "0 < n" and p: "0 < p" "p < 48 / 100" and u: "0 \<le> u" "u \<le> 1 / 1024"
    and r: "rounded u A n p"
  shows "\<exists>v. size_float A n p = Inr v \<and>
     - real_of_int n * ln p / (ln 2)\<^sup>2 * round_lo u \<le> v \<and>
     v \<le> - real_of_int n * ln p / (ln 2)\<^sup>2 * round_hi u"
proof -
  define N where "N = real_of_int n"
  define L where "L = - ln p"
  define C where "C = ln (2::real)"
  define lo where "lo = 1 - u"
  define hi where "hi = 1 + u"
  define l where "l = log_f A p"
  define c where "c = log_f A 2"
  from r obtain a where a: "to_float A (- n) = Some a"
    by (cases "to_float A (- n)") (simp_all add: rounded_def Let_def)
  from r a obtain s where s: "sqr_f A c = Some s"
    by (cases "sqr_f A c") (simp_all add: rounded_def Let_def c_def)
  from r a s obtain m where m: "mul_f A a l = Some m"
    by (cases "mul_f A a l") (simp_all add: rounded_def Let_def c_def l_def)
  from r a s m obtain v where v: "div_f A m s = Some v"
    by (cases "div_f A m s") (simp_all add: rounded_def Let_def c_def l_def)
  from r a s m v have na: "near u a (- N)" and nl: "near u l (- L)" and nm: "near u m (a * l)"
    and nc: "near u c C" and ns: "near u s (c\<^sup>2)" and nv: "near u v (m / s)"
    by (simp_all add: rounded_def Let_def l_def c_def N_def L_def C_def)
  have N: "0 < N" using n by (simp add: N_def)
  have L: "0 < L" using neg_ln_rate_lower [OF p] by (simp add: L_def)
  have C: "0 < C" by (simp add: C_def)
  have lo: "0 < lo" and hi: "0 < hi" using u by (simp_all add: lo_def hi_def)
  have a1: "N * lo \<le> - a" and a2: "- a \<le> N * hi"
    using near_neg [OF na] N by (simp_all add: lo_def hi_def)
  have l1: "L * lo \<le> - l" and l2: "- l \<le> L * hi"
    using near_neg [OF nl] L by (simp_all add: lo_def hi_def)
  have Nlo: "0 \<le> N * lo" and Llo: "0 \<le> L * lo" using N L lo by simp_all
  have al: "a * l = (- a) * (- l)" by simp
  have al1: "(N * lo) * (L * lo) \<le> a * l"
    unfolding al using a1 l1 Nlo Llo by (intro mult_mono) linarith+
  have al2: "a * l \<le> (N * hi) * (L * hi)"
    unfolding al using a2 l2 a1 l1 Nlo Llo by (intro mult_mono) linarith+
  have al0: "0 \<le> a * l" using al1 Nlo Llo by (meson mult_nonneg_nonneg order_trans)
  have m1': "(a * l) * lo \<le> m" and m2': "m \<le> (a * l) * hi"
    using near_pos [OF nm al0] by (simp_all add: lo_def hi_def)
  have "(N * lo) * (L * lo) * lo \<le> (a * l) * lo"
    using al1 lo by (intro mult_right_mono) simp_all
  with m1' have m1: "(N * lo) * (L * lo) * lo \<le> m" by linarith
  have "(a * l) * hi \<le> (N * hi) * (L * hi) * hi"
    using al2 hi by (intro mult_right_mono) simp_all
  with m2' have m2: "m \<le> (N * hi) * (L * hi) * hi" by linarith
  have mlo0: "0 < (N * lo) * (L * lo) * lo" using N L lo by (intro mult_pos_pos)
  have m0: "0 < m" using m1 mlo0 by linarith
  have c1: "C * lo \<le> c" and c2: "c \<le> C * hi"
    using near_pos [OF nc] C by (simp_all add: lo_def hi_def)
  have Clo: "0 < C * lo" using C lo by simp
  have c0: "0 \<le> c" using c1 Clo by linarith
  have cc1: "(C * lo)\<^sup>2 \<le> c\<^sup>2" using c1 Clo by (intro power_mono) simp_all
  have cc2: "c\<^sup>2 \<le> (C * hi)\<^sup>2" using c2 c0 by (intro power_mono) simp_all
  have s1': "c\<^sup>2 * lo \<le> s" and s2': "s \<le> c\<^sup>2 * hi"
    using near_pos [OF ns] by (simp_all add: lo_def hi_def)
  have "(C * lo)\<^sup>2 * lo \<le> c\<^sup>2 * lo" using cc1 lo by (intro mult_right_mono) simp_all
  with s1' have s1: "(C * lo)\<^sup>2 * lo \<le> s" by linarith
  have "c\<^sup>2 * hi \<le> (C * hi)\<^sup>2 * hi" using cc2 hi by (intro mult_right_mono) simp_all
  with s2' have s2: "s \<le> (C * hi)\<^sup>2 * hi" by linarith
  have slo0: "0 < (C * lo)\<^sup>2 * lo" using C lo by (intro mult_pos_pos zero_less_power)
  have s0: "0 < s" using s1 slo0 by linarith
  have q1: "(N * lo) * (L * lo) * lo / ((C * hi)\<^sup>2 * hi) \<le> m / s"
    using mlo0 m1 s0 s2 by (intro frac_le) simp_all
  have q2: "m / s \<le> (N * hi) * (L * hi) * hi / ((C * lo)\<^sup>2 * lo)"
    using m0 m2 slo0 s1 by (intro frac_le) simp_all
  have q0: "0 \<le> m / s" using m0 s0 by simp
  have v1': "(m / s) * lo \<le> v" and v2': "v \<le> (m / s) * hi"
    using near_pos [OF nv q0] by (simp_all add: lo_def hi_def)
  have "(N * lo) * (L * lo) * lo / ((C * hi)\<^sup>2 * hi) * lo \<le> (m / s) * lo"
    using q1 lo by (intro mult_right_mono) simp_all
  with v1' have v1: "(N * lo) * (L * lo) * lo / ((C * hi)\<^sup>2 * hi) * lo \<le> v" by linarith
  have "(m / s) * hi \<le> (N * hi) * (L * hi) * hi / ((C * lo)\<^sup>2 * lo) * hi"
    using q2 hi by (intro mult_right_mono) simp_all
  with v2' have v2: "v \<le> (N * hi) * (L * hi) * hi / ((C * lo)\<^sup>2 * lo) * hi" by linarith
  have e1: "- real_of_int n * ln p / (ln 2)\<^sup>2 * round_lo u
      = (N * lo) * (L * lo) * lo / ((C * hi)\<^sup>2 * hi) * lo"
    using C lo hi
    by (simp add: round_lo_def N_def L_def C_def lo_def hi_def power2_eq_square
          power4_eq_xxxx power3_eq_cube mult_ac)
  have e2: "- real_of_int n * ln p / (ln 2)\<^sup>2 * round_hi u
      = (N * hi) * (L * hi) * hi / ((C * lo)\<^sup>2 * lo) * hi"
    using C lo hi
    by (simp add: round_hi_def N_def L_def C_def lo_def hi_def power2_eq_square
          power4_eq_xxxx power3_eq_cube mult_ac)
  have "size_float A n p = Inr v"
    using a s m v s0 by (simp add: size_float_def Let_def l_def c_def)
  then show ?thesis using v1 v2 unfolding e1 e2 by blast
qed

lemma round_lo_ge:
  fixes u :: real
  assumes "0 \<le> u" and "u \<le> 1 / 1024"
  shows "99 / 100 \<le> round_lo u"
proof -
  have a: "(1023 / 1024 :: real) ^ 4 \<le> (1 - u) ^ 4" using assms by (intro power_mono) simp_all
  have b: "(1 + u) ^ 3 \<le> (1025 / 1024 :: real) ^ 3" using assms by (intro power_mono) simp_all
  have c: "0 < (1 + u) ^ 3" using assms by (intro zero_less_power) simp
  have "(1023 / 1024 :: real) ^ 4 / (1025 / 1024) ^ 3 \<le> (1 - u) ^ 4 / (1 + u) ^ 3"
    using a b c by (intro frac_le) simp_all
  moreover have "(99 / 100 :: real) \<le> (1023 / 1024) ^ 4 / (1025 / 1024) ^ 3"
    by (simp add: power_divide)
  ultimately show ?thesis unfolding round_lo_def by linarith
qed

lemma round_lo_le:
  fixes u :: real
  assumes "0 \<le> u" and "u \<le> 1 / 1024"
  shows "round_lo u \<le> 1"
proof -
  have a: "(1 - u) ^ 4 \<le> 1" using assms by (intro power_le_one) simp_all
  have b: "1 \<le> (1 + u) ^ 3" using assms by (intro one_le_power) simp
  have "(1 - u) ^ 4 / (1 + u) ^ 3 \<le> 1 / 1"
    using a b assms by (intro frac_le) simp_all
  then show ?thesis by (simp add: round_lo_def)
qed

lemma round_hi_ge:
  fixes u :: real
  assumes "0 \<le> u" and "u \<le> 1 / 1024"
  shows "1 \<le> round_hi u"
proof -
  have a: "(1 - u) ^ 3 \<le> 1" using assms by (intro power_le_one) simp_all
  have b: "1 \<le> (1 + u) ^ 4" using assms by (intro one_le_power) simp
  have c: "0 < (1 - u) ^ 3" using assms by (intro zero_less_power) simp
  have "1 / 1 \<le> (1 + u) ^ 4 / (1 - u) ^ 3"
    using a b c by (intro frac_le) simp_all
  then show ?thesis by (simp add: round_hi_def)
qed

lemma real_size_ge:
  fixes p :: real
  assumes "0 < n" and "0 < p" and "p < 48 / 100"
  shows "26 / 25 * real_of_int n \<le> real_size n p"
proof -
  have sq: "0 < (ln (2::real))\<^sup>2" "(ln (2::real))\<^sup>2 \<le> 4806 / 10000" using ln_2_sq_bounds by linarith+
  have "26 / 25 * (ln (2::real))\<^sup>2 \<le> - ln p" using neg_ln_rate_lower [OF assms(2,3)] sq by linarith
  then have "real_of_int n * (26 / 25 * (ln 2)\<^sup>2) \<le> real_of_int n * (- ln p)"
    using assms(1) by (intro mult_left_mono) simp_all
  then have "26 / 25 * real_of_int n * (ln 2)\<^sup>2 \<le> real_of_int n * (- ln p)"
    by (simp add: mult_ac)
  then have "26 / 25 * real_of_int n \<le> real_of_int n * (- ln p) / (ln 2)\<^sup>2"
    using sq(1) by (simp only: pos_le_divide_eq)
  then show ?thesis by (simp add: real_size_def)
qed

lemma init_fl_returns:
  assumes "0 < p" and "p < lit_048" and "derive_size_fl A n p = Inr sz" and "0 < sz"
    and "derive_hash_count_fl A sz n = Inr hc" and "max_cache_size A sz hc = Inr c"
  shows "init_fl A n p f w =
     Returns \<lparr>size_bf = sz, hash_count = hc,
              filename = f, readcount = 0, resource = 1, rmutex = 1, serviceQueue = 1,
              bit_array = next_ino w\<rparr>
       (write_file (f @ ''.meta'') (Pickle sz hc)
          (w\<lparr>dir := (dir w)(f \<mapsto> next_ino w),
             inode := (inode w)(next_ino w \<mapsto> Bytes (replicate (nat sz) 0)),
             next_ino := Suc (next_ino w)\<rparr>))"
  using assms
  by (simp add: init_fl_def Let_def path_exists_def write_file_new mmap_file_def save_metadata_def)

lemma init_fl_raises_34:
  assumes "0 < p" and "p < lit_048" and "derive_size_fl A n p = Inr sz"
    and "derive_hash_count_fl A sz n = Inl e"
  shows "init_fl A n p f w = Raises e w"
  using assms by (simp add: init_fl_def)

lemma init_fl_raises_36:
  assumes "0 < p" and "p < lit_048" and "derive_size_fl A n p = Inr sz"
    and "derive_hash_count_fl A sz n = Inr hc" and "max_cache_size A sz hc = Inl e"
  shows "init_fl A n p f w = Raises e w"
  using assms by (simp add: init_fl_def)

lemma init_fl_overflow:
  assumes "0 < p" and "p < lit_048" and "to_float A (- n) = None"
  shows "init_fl A n p f w = Raises OverflowError w"
  using assms by (simp add: init_fl_def derive_size_fl_def size_float_def)

lemma near_refl: "0 \<le> u \<Longrightarrow> near u y y"
  by (simp add: near_def)

lemma sample_overflow: "to_float sample_arith (- (2 ^ 1024)) = None"
  by (simp add: sample_arith_def)

lemma sample_hash_count: "derive_hash_count_fl sample_arith 479 100 = Inr 3"
  using derive_hash_count_479
  by (simp add: derive_hash_count_fl_def sample_arith_def derive_hash_count_def)

lemma sample_cache_size: "\<exists>c. max_cache_size sample_arith 479 3 = Inr c"
  by (simp add: max_cache_size_def sample_arith_def)

lemma boundary_rate_valid: "0 < boundary_rate \<and> boundary_rate < lit_048"
proof -
  have k: "(4::real) \<le> 5 / (1 + 1 / 2 ^ 53)" by simp
  have sq: "4803 / 10000 \<le> (ln (2::real))\<^sup>2" using ln_2_sq_bounds by linarith
  have "4 * (4803 / 10000) \<le> 5 / (1 + 1 / 2 ^ 53) * (ln (2::real))\<^sup>2"
    using k sq by (intro mult_mono) simp_all
  moreover have "ln (47 / 100 :: real) = - ln (100 / 47)" by (simp add: ln_div)
  ultimately have "- (5 / (1 + 1 / 2 ^ 53)) * (ln (2::real))\<^sup>2 \<le> ln (47 / 100)"
    using ln_100_47_bounds by linarith
  then have "boundary_rate \<le> 47 / 100"
    unfolding boundary_rate_def by (subst (asm) ln_ge_iff) simp_all
  moreover have "(47 / 100 :: real) < lit_048" by (simp add: lit_048_def)
  ultimately show ?thesis by (simp add: boundary_rate_def)
qed

lemma real_size_boundary: "real_size 1 boundary_rate = 5 / (1 + 1 / 2 ^ 53)"
proof -
  have "ln (2::real) \<noteq> 0" by simp
  then show ?thesis by (simp add: real_size_def boundary_rate_def)
qed

lemma floor_real_size_boundary: "\<lfloor>real_size 1 boundary_rate\<rfloor> = 4"
  unfolding real_size_boundary by (intro floor_unique) simp_all

lemma size_float_boundary: "size_float sample_arith 1 boundary_rate = Inr 5"
proof -
  have "ln (2::real) \<noteq> 0" by simp
  then show ?thesis
    by (simp add: size_float_def sample_arith_def boundary_rate_def Let_def)
qed

lemma near_skew_53: "1 / 2 ^ 53 \<le> u \<Longrightarrow> near u (y * (1 + 1 / 2 ^ 53)) y"
proof -
  assume u: "1 / 2 ^ 53 \<le> u"
  have "y * (1 + 1 / 2 ^ 53) - y = y * (1 / 2 ^ 53)" by (simp add: algebra_simps)
  then have "\<bar>y * (1 + 1 / 2 ^ 53) - y\<bar> = \<bar>y\<bar> * (1 / 2 ^ 53)" by (simp add: abs_mult)
  also have "\<dots> \<le> \<bar>y\<bar> * u" using u by (intro mult_left_mono) simp_all
  finally show ?thesis by (simp add: near_def mult.commute)
qed

lemma rounded_sample_arith:
  assumes "1 / 2 ^ 53 \<le> u" and "\<bar>n\<bar> < 2 ^ 1024"
  shows "rounded u sample_arith n p"
proof -
  have u: "0 \<le> u" using assms(1) by (rule order_trans [rotated]) simp
  show ?thesis
    unfolding rounded_def sample_arith_def Let_def
    using near_skew_53 [OF assms(1), of "- real_of_int n * ln p / (ln 2)\<^sup>2"] assms(2) u
    by (simp add: near_refl)
qed

text \<open>
  The driver's size is at no rounding boundary: every arithmetic accurate to one part in
  \<open>2 ^ 20\<close> gives 479.
\<close>

lemma real_size_100: "47901 / 100 \<le> real_size 100 (1 / 10) \<and> real_size 100 (1 / 10) \<le> 47998 / 100"
proof -
  have l: "ln (1 / 10 :: real) = - ln 10" by (simp add: ln_div)
  have sq: "0 < (ln (2::real))\<^sup>2" using ln_2_sq_bounds by linarith
  have lo: "47901 / 100 * (ln (2::real))\<^sup>2 \<le> 100 * ln 10"
    using ln_2_sq_bounds ln_10_bounds by linarith
  have hi: "100 * ln (10::real) \<le> 47998 / 100 * (ln 2)\<^sup>2"
    using ln_2_sq_bounds ln_10_bounds by linarith
  have "47901 / 100 \<le> 100 * ln (10::real) / (ln 2)\<^sup>2"
    using lo sq by (simp only: pos_le_divide_eq)
  moreover have "100 * ln (10::real) / (ln 2)\<^sup>2 \<le> 47998 / 100"
    using hi sq by (simp only: pos_divide_le_eq)
  ultimately show ?thesis unfolding real_size_def l by simp
qed

lemma round_small:
  fixes u :: real
  assumes "0 \<le> u" and "u \<le> 1 / 2 ^ 20"
  shows "99999 / 100000 \<le> round_lo u" and "round_hi u \<le> 100001 / 100000"
proof -
  have a: "(1 - 1 / 2 ^ 20 :: real) ^ 4 \<le> (1 - u) ^ 4" using assms by (intro power_mono) simp_all
  have b: "(1 + u) ^ 3 \<le> (1 + 1 / 2 ^ 20 :: real) ^ 3" using assms by (intro power_mono) simp_all
  have c: "0 < (1 + u) ^ 3" using assms by (intro zero_less_power) simp
  have "(1 - 1 / 2 ^ 20 :: real) ^ 4 / (1 + 1 / 2 ^ 20) ^ 3 \<le> (1 - u) ^ 4 / (1 + u) ^ 3"
    using a b c by (intro frac_le) simp_all
  moreover have "(99999 / 100000 :: real) \<le> (1 - 1 / 2 ^ 20) ^ 4 / (1 + 1 / 2 ^ 20) ^ 3"
    by (simp add: power_divide)
  ultimately show "99999 / 100000 \<le> round_lo u" unfolding round_lo_def by linarith
  have a': "(1 + u) ^ 4 \<le> (1 + 1 / 2 ^ 20 :: real) ^ 4" using assms by (intro power_mono) simp_all
  have b': "(1 - 1 / 2 ^ 20 :: real) ^ 3 \<le> (1 - u) ^ 3" using assms by (intro power_mono) simp_all
  have c': "0 < (1 - 1 / 2 ^ 20 :: real) ^ 3" by simp
  have "(1 + u) ^ 4 / (1 - u) ^ 3 \<le> (1 + 1 / 2 ^ 20 :: real) ^ 4 / (1 - 1 / 2 ^ 20) ^ 3"
    using a' b' c' assms by (intro frac_le) simp_all
  moreover have "(1 + 1 / 2 ^ 20 :: real) ^ 4 / (1 - 1 / 2 ^ 20) ^ 3 \<le> 100001 / 100000"
    by (simp add: power_divide)
  ultimately show "round_hi u \<le> 100001 / 100000" unfolding round_hi_def by linarith
qed

lemma driver_size_rounded:
  fixes u :: real
  assumes u: "0 \<le> u" "u \<le> 1 / 2 ^ 20" and r: "rounded u A 100 (1 / 10)"
  shows "derive_size_fl A 100 (1 / 10) = Inr 479"
proof -
  let ?x = "real_size 100 (1 / 10)"
  have u': "u \<le> 1 / 1024" using u(2) by (rule order_trans) simp
  from size_float_bounds [OF _ _ _ u(1) u' r] obtain v where
    v: "size_float A 100 (1 / 10) = Inr v" and lo: "?x * round_lo u \<le> v" and hi: "v \<le> ?x * round_hi u"
    unfolding real_size_def by auto
  have x: "47901 / 100 \<le> ?x" "?x \<le> 47998 / 100" using real_size_100 by simp_all
  have "47901 / 100 * (99999 / 100000) \<le> ?x * round_lo u"
    using x(1) round_small(1) [OF u] by (intro mult_mono) simp_all
  then have v1: "479 \<le> v" using lo by linarith
  have rh: "0 \<le> round_hi u" using round_hi_ge [OF u(1) u'] by linarith
  have "?x * round_hi u \<le> 47998 / 100 * (100001 / 100000)"
    using x round_small(2) [OF u] rh by (intro mult_mono) simp_all
  then have v2: "v < 479 + 1" using hi by linarith
  have "py_int v = 479" using v1 v2 by (intro py_int_eq) simp_all
  then show ?thesis by (simp add: derive_size_fl_def v)
qed

lemma driver_size_sample: "derive_size_fl sample_arith 100 (1 / 10) = Inr 479"
  by (rule driver_size_rounded [of "1 / 2 ^ 52"]) (simp_all add: rounded_sample_arith)

lemma ceiling_100: "\<lceil>- real_of_int 100 * ln (1 / 10) / (ln 2)\<^sup>2\<rceil> = 480"
proof -
  have l: "ln (1 / 10 :: real) = - ln 10" by (simp add: ln_div)
  have sq: "0 < (ln (2::real))\<^sup>2" using ln_2_sq_bounds by linarith
  have lo: "479 * (ln (2::real))\<^sup>2 < 100 * ln 10" using ln_2_sq_bounds ln_10_bounds by linarith
  have hi: "100 * ln (10::real) \<le> 480 * (ln 2)\<^sup>2" using ln_2_sq_bounds ln_10_bounds by linarith
  have "479 < 100 * ln (10::real) / (ln 2)\<^sup>2" using lo sq by (simp add: pos_less_divide_eq)
  moreover have "100 * ln (10::real) / (ln 2)\<^sup>2 \<le> 480" using hi sq by (simp add: pos_divide_le_eq)
  ultimately show ?thesis
    unfolding l by (intro ceiling_unique) simp_all
qed

text \<open>
  C2, as stated, fails: for \<open>n = 100\<close> and \<open>p = 0.1\<close> the constructor derives the size
  479, on exact arithmetic and on the arithmetic that rounds, and the ceiling of
  \<open>-n * ln p / (ln 2)\<^sup>2\<close> is 480.
\<close>

theorem size_is_not_ceiling:
  "init 100 (1 / 10) ''bloom_filter.bin'' empty_world = Returns driver_self driver_world \<and>
   size_bf driver_self = 479 \<and>
   derive_size_fl sample_arith 100 (1 / 10) = Inr 479 \<and>
   \<lceil>- real_of_int 100 * ln (1 / 10) / (ln 2)\<^sup>2\<rceil> = 480"
  by (simp only: init_driver_empty ceiling_100 driver_size_sample) (simp add: driver_self_def)

text \<open>
  C2, amended. For a positive \<open>n\<close> and a rate \<open>p\<close> that is positive and below \<open>0.48\<close>,
  line 33 truncates the double \<open>v\<close> that the platform computes for
  \<open>-n * ln p / (ln 2)\<^sup>2\<close>: the size is \<open>v\<close> rounded down, and it is positive. When each of
  the six operations of the line is accurate to the relative error \<open>u\<close> (at most
  \<open>1 / 1024\<close>), \<open>v\<close> lies between the real value times \<open>round_lo u\<close> and the real value
  times \<open>round_hi u\<close>; so the size and the real value rounded down both lie between the
  floors of these two bounds, and the size is the real value rounded down unless an
  integer lies that close to the real value. The constructor then returns a filter of
  that size, or raises what line 34 or line 36 raises. When \<open>n\<close> has no double, the
  constructor raises OverflowError.
\<close>

theorem size_truncates_rounded_value:
  fixes p u :: real
  assumes "0 < n" and "0 < p" and "p < lit_048"
  shows "(to_float A (- n) = None \<longrightarrow> init_fl A n p f w = Raises OverflowError w) \<and>
     (0 \<le> u \<and> u \<le> 1 / 1024 \<and> rounded u A n p \<longrightarrow>
       (\<exists>v. size_float A n p = Inr v \<and> derive_size_fl A n p = Inr \<lfloor>v\<rfloor> \<and> 0 < \<lfloor>v\<rfloor> \<and>
          real_size n p * round_lo u \<le> v \<and> v \<le> real_size n p * round_hi u \<and>
          \<lfloor>real_size n p * round_lo u\<rfloor> \<le> \<lfloor>v\<rfloor> \<and>
          \<lfloor>v\<rfloor> \<le> \<lfloor>real_size n p * round_hi u\<rfloor> \<and>
          \<lfloor>real_size n p * round_lo u\<rfloor> \<le> \<lfloor>real_size n p\<rfloor> \<and>
          \<lfloor>real_size n p\<rfloor> \<le> \<lfloor>real_size n p * round_hi u\<rfloor> \<and>
          (case derive_hash_count_fl A \<lfloor>v\<rfloor> n of
             Inl e \<Rightarrow> init_fl A n p f w = Raises e w
           | Inr hc \<Rightarrow>
              (case max_cache_size A \<lfloor>v\<rfloor> hc of
                 Inl e \<Rightarrow> init_fl A n p f w = Raises e w
               | Inr c \<Rightarrow>
                   \<exists>self w'. init_fl A n p f w = Returns self w' \<and>
                     size_bf self = \<lfloor>v\<rfloor> \<and> hash_count self = hc))))"
proof (intro conjI impI)
  show "init_fl A n p f w = Raises OverflowError w" if "to_float A (- n) = None"
    using assms(2,3) that by (rule init_fl_overflow)
next
  assume h: "0 \<le> u \<and> u \<le> 1 / 1024 \<and> rounded u A n p"
  then have u: "0 \<le> u" "u \<le> 1 / 1024" and r: "rounded u A n p" by simp_all
  have p48: "p < 48 / 100" using assms(3) lit_048_less by linarith
  let ?x = "real_size n p"
  from size_float_bounds [OF assms(1,2) p48 u r] obtain v where
    v: "size_float A n p = Inr v" and lo: "?x * round_lo u \<le> v" and hi: "v \<le> ?x * round_hi u"
    unfolding real_size_def by blast
  have x: "26 / 25 \<le> ?x" using real_size_ge [OF assms(1,2) p48] assms(1) by linarith
  have "26 / 25 * (99 / 100) \<le> ?x * round_lo u"
    using x round_lo_ge [OF u] by (intro mult_mono) simp_all
  then have v1: "1 \<le> v" using lo by linarith
  then have fl: "py_int v = \<lfloor>v\<rfloor>" by (simp add: py_int_floor)
  have pos: "0 < \<lfloor>v\<rfloor>" using v1 by linarith
  have sz: "derive_size_fl A n p = Inr \<lfloor>v\<rfloor>" by (simp add: derive_size_fl_def v fl)
  have xlo: "?x * round_lo u \<le> ?x * 1"
    using round_lo_le [OF u] x by (intro mult_left_mono) simp_all
  have xhi: "?x * 1 \<le> ?x * round_hi u"
    using round_hi_ge [OF u] x by (intro mult_left_mono) simp_all
  have f1: "\<lfloor>?x * round_lo u\<rfloor> \<le> \<lfloor>v\<rfloor>" using lo by (rule floor_mono)
  have f2: "\<lfloor>v\<rfloor> \<le> \<lfloor>?x * round_hi u\<rfloor>" using hi by (rule floor_mono)
  have f3: "\<lfloor>?x * round_lo u\<rfloor> \<le> \<lfloor>?x\<rfloor>" using xlo by (intro floor_mono) simp
  have f4: "\<lfloor>?x\<rfloor> \<le> \<lfloor>?x * round_hi u\<rfloor>" using xhi by (intro floor_mono) simp
  have rest: "case derive_hash_count_fl A \<lfloor>v\<rfloor> n of
             Inl e \<Rightarrow> init_fl A n p f w = Raises e w
           | Inr hc \<Rightarrow>
              (case max_cache_size A \<lfloor>v\<rfloor> hc of
                 Inl e \<Rightarrow> init_fl A n p f w = Raises e w
               | Inr c \<Rightarrow>
                   \<exists>self w'. init_fl A n p f w = Returns self w' \<and>
                     size_bf self = \<lfloor>v\<rfloor> \<and> hash_count self = hc)"
  proof (cases "derive_hash_count_fl A \<lfloor>v\<rfloor> n")
    case (Inl e)
    then show ?thesis using init_fl_raises_34 [OF assms(2,3) sz Inl] by simp
  next
    case hc: (Inr hc)
    show ?thesis
    proof (cases "max_cache_size A \<lfloor>v\<rfloor> hc")
      case (Inl e)
      then show ?thesis using hc init_fl_raises_36 [OF assms(2,3) sz hc Inl] by simp
    next
      case (Inr c)
      then show ?thesis using hc init_fl_returns [OF assms(2,3) sz pos hc Inr] by simp
    qed
  qed
  show "\<exists>v. size_float A n p = Inr v \<and> derive_size_fl A n p = Inr \<lfloor>v\<rfloor> \<and> 0 < \<lfloor>v\<rfloor> \<and>
          ?x * round_lo u \<le> v \<and> v \<le> ?x * round_hi u \<and>
          \<lfloor>?x * round_lo u\<rfloor> \<le> \<lfloor>v\<rfloor> \<and>
          \<lfloor>v\<rfloor> \<le> \<lfloor>?x * round_hi u\<rfloor> \<and>
          \<lfloor>?x * round_lo u\<rfloor> \<le> \<lfloor>?x\<rfloor> \<and>
          \<lfloor>?x\<rfloor> \<le> \<lfloor>?x * round_hi u\<rfloor> \<and>
          (case derive_hash_count_fl A \<lfloor>v\<rfloor> n of
             Inl e \<Rightarrow> init_fl A n p f w = Raises e w
           | Inr hc \<Rightarrow>
              (case max_cache_size A \<lfloor>v\<rfloor> hc of
                 Inl e \<Rightarrow> init_fl A n p f w = Raises e w
               | Inr c \<Rightarrow>
                   \<exists>self w'. init_fl A n p f w = Returns self w' \<and>
                     size_bf self = \<lfloor>v\<rfloor> \<and> hash_count self = hc))"
    using v sz pos lo hi f1 f2 f3 f4 rest by blast
qed

theorem size_truncates_rounded_value_witness:
  "(0::int) < 2 ^ 1024 \<and> (0::real) < 1 / 10 \<and> (1 / 10 :: real) < lit_048 \<and>
   to_float sample_arith (- (2 ^ 1024)) = None \<and>
   init_fl sample_arith (2 ^ 1024) (1 / 10) ''bloom_filter.bin'' empty_world
     = Raises OverflowError empty_world \<and>
   (0::int) < 100 \<and> (0::real) \<le> 1 / 2 ^ 52 \<and> (1 / 2 ^ 52 :: real) \<le> 1 / 1024 \<and>
   rounded (1 / 2 ^ 52) sample_arith 100 (1 / 10) \<and>
   (\<exists>v. size_float sample_arith 100 (1 / 10) = Inr v \<and>
      derive_size_fl sample_arith 100 (1 / 10) = Inr \<lfloor>v\<rfloor> \<and> 0 < \<lfloor>v\<rfloor> \<and> \<lfloor>v\<rfloor> = 479 \<and>
      real_size 100 (1 / 10) * round_lo (1 / 2 ^ 52) \<le> v \<and>
      v \<le> real_size 100 (1 / 10) * round_hi (1 / 2 ^ 52) \<and>
      \<lfloor>real_size 100 (1 / 10) * round_lo (1 / 2 ^ 52)\<rfloor> \<le> \<lfloor>v\<rfloor> \<and>
      \<lfloor>v\<rfloor> \<le> \<lfloor>real_size 100 (1 / 10) * round_hi (1 / 2 ^ 52)\<rfloor> \<and>
      \<lfloor>real_size 100 (1 / 10) * round_lo (1 / 2 ^ 52)\<rfloor> \<le> \<lfloor>real_size 100 (1 / 10)\<rfloor> \<and>
      \<lfloor>real_size 100 (1 / 10)\<rfloor> \<le> \<lfloor>real_size 100 (1 / 10) * round_hi (1 / 2 ^ 52)\<rfloor> \<and>
      derive_hash_count_fl sample_arith 479 100 = Inr 3 \<and>
      (\<exists>c. max_cache_size sample_arith 479 3 = Inr c) \<and>
      (\<exists>self w'. init_fl sample_arith 100 (1 / 10) ''bloom_filter.bin'' empty_world = Returns self w' \<and>
         size_bf self = 479 \<and> hash_count self = 3))"
proof -
  have p: "(0::real) < 1 / 10" "(1 / 10 :: real) < lit_048" by (simp_all add: lit_048_def)
  have r: "rounded (1 / 2 ^ 52) sample_arith 100 (1 / 10)"
    by (rule rounded_sample_arith) simp_all
  have over: "init_fl sample_arith (2 ^ 1024) (1 / 10) ''bloom_filter.bin'' empty_world
      = Raises OverflowError empty_world"
    using size_truncates_rounded_value
            [of "2 ^ 1024" "1 / 10" sample_arith "''bloom_filter.bin''" empty_world 0]
          p sample_overflow
    by simp
  from size_truncates_rounded_value
         [of 100 "1 / 10" sample_arith "''bloom_filter.bin''" empty_world "1 / 2 ^ 52"] p r
  obtain v where v: "size_float sample_arith 100 (1 / 10) = Inr v"
    and sz: "derive_size_fl sample_arith 100 (1 / 10) = Inr \<lfloor>v\<rfloor>" and pos: "0 < \<lfloor>v\<rfloor>"
    and b: "real_size 100 (1 / 10) * round_lo (1 / 2 ^ 52) \<le> v"
      "v \<le> real_size 100 (1 / 10) * round_hi (1 / 2 ^ 52)"
      "\<lfloor>real_size 100 (1 / 10) * round_lo (1 / 2 ^ 52)\<rfloor> \<le> \<lfloor>v\<rfloor>"
      "\<lfloor>v\<rfloor> \<le> \<lfloor>real_size 100 (1 / 10) * round_hi (1 / 2 ^ 52)\<rfloor>"
      "\<lfloor>real_size 100 (1 / 10) * round_lo (1 / 2 ^ 52)\<rfloor> \<le> \<lfloor>real_size 100 (1 / 10)\<rfloor>"
      "\<lfloor>real_size 100 (1 / 10)\<rfloor> \<le> \<lfloor>real_size 100 (1 / 10) * round_hi (1 / 2 ^ 52)\<rfloor>"
    and rest: "case derive_hash_count_fl sample_arith \<lfloor>v\<rfloor> 100 of
             Inl e \<Rightarrow> init_fl sample_arith 100 (1 / 10) ''bloom_filter.bin'' empty_world
                 = Raises e empty_world
           | Inr hc \<Rightarrow>
              (case max_cache_size sample_arith \<lfloor>v\<rfloor> hc of
                 Inl e \<Rightarrow> init_fl sample_arith 100 (1 / 10) ''bloom_filter.bin'' empty_world
                     = Raises e empty_world
               | Inr c \<Rightarrow>
                   \<exists>self w'. init_fl sample_arith 100 (1 / 10) ''bloom_filter.bin'' empty_world
                       = Returns self w' \<and>
                     size_bf self = \<lfloor>v\<rfloor> \<and> hash_count self = hc)"
    by auto
  have v479: "\<lfloor>v\<rfloor> = 479" using sz driver_size_sample by simp
  from sample_cache_size obtain c where c: "max_cache_size sample_arith 479 3 = Inr c" by blast
  have ret: "\<exists>self w'. init_fl sample_arith 100 (1 / 10) ''bloom_filter.bin'' empty_world
      = Returns self w' \<and> size_bf self = 479 \<and> hash_count self = 3"
    using rest unfolding v479 by (simp add: sample_hash_count c)
  have "(0::int) < 2 ^ 1024" by simp
  moreover have "(0::real) \<le> 1 / 2 ^ 52" "(1 / 2 ^ 52 :: real) \<le> 1 / 1024" by simp_all
  ultimately show ?thesis
    using p over r v sz pos v479 b ret sample_overflow sample_hash_count sample_cache_size
    by (intro conjI exI [of _ v]) simp_all
qed

text \<open>
  The rounding counts: at the rate \<open>boundary_rate\<close> (about 0.0905127) and \<open>n = 1\<close> the real
  value is just below 5, and the arithmetic that rounds its quotient up by one part in
  \<open>2 ^ 53\<close> derives the size 5, not 4.
\<close>

lemma rounding_moves_size:
  "0 < boundary_rate \<and> boundary_rate < lit_048 \<and>
   rounded (1 / 2 ^ 52) sample_arith 1 boundary_rate \<and>
   derive_size_fl sample_arith 1 boundary_rate = Inr 5 \<and>
   \<lfloor>real_size 1 boundary_rate\<rfloor> = 4"
  using boundary_rate_valid rounded_sample_arith [of "1 / 2 ^ 52" 1 boundary_rate]
  by (simp add: derive_size_fl_def size_float_boundary floor_real_size_boundary py_int_def)

subsection \<open>A valid input with no hash function\<close>

lemma derive_size_tiny: "derive_size 1 (47 / 100) = 1"
proof -
  have l: "ln (47 / 100 :: real) = - ln (100 / 47)" by (simp add: ln_div)
  have sq: "0 < (ln (2::real))\<^sup>2" using ln_2_sq_bounds by linarith
  have lo: "1 * (ln (2::real))\<^sup>2 \<le> ln (100 / 47)" using ln_2_sq_bounds ln_100_47_bounds by linarith
  have hi: "ln (100 / 47 :: real) < 2 * (ln 2)\<^sup>2" using ln_2_sq_bounds ln_100_47_bounds by linarith
  have "1 \<le> ln (100 / 47 :: real) / (ln 2)\<^sup>2" using lo sq by (simp only: pos_le_divide_eq)
  moreover have "ln (100 / 47 :: real) / (ln 2)\<^sup>2 < 2" using hi sq by (simp only: pos_divide_less_eq)
  ultimately show ?thesis
    unfolding derive_size_def l by (intro py_int_eq) simp_all
qed

lemma derive_hash_count_tiny: "derive_hash_count 1 1 = 0"
  unfolding derive_hash_count_def
  using ln_2_lower ln_2_upper by (intro py_int_eq) simp_all

lemma init_tiny:
  "init 1 (47 / 100) ''bloom_filter.bin'' empty_world = Returns tiny_self tiny_world"
  using init_returns [of "47 / 100" 1 "''bloom_filter.bin''" empty_world]
  by (simp add: derive_size_tiny derive_hash_count_tiny empty_world_def tiny_self_def
        tiny_world_def write_file_def)

lemma live_tiny: "live (tiny_self, tiny_world)"
  by (simp add: live_def tiny_self_def tiny_world_def)

text \<open>
  C5. The constructor applies no minimum to \<open>hash_count\<close>: \<^verbatim>\<open>BloomFilter(1, 0.47)\<close>
  passes the assertion and returns a filter of size 1 with \<open>hash_count = 0\<close>.
\<close>

theorem hash_count_zero_for_valid_input:
  "(0::int) < 1 \<and> (0::real) < 47 / 100 \<and> (47 / 100 :: real) < 48 / 100 \<and>
   init 1 (47 / 100) ''bloom_filter.bin'' empty_world = Returns tiny_self tiny_world \<and>
   hash_count tiny_self = 0"
  by (simp add: init_tiny) (simp add: tiny_self_def)

lemma positions_empty: "hc \<le> 0 \<Longrightarrow> positions sz hc elem = []"
  by (simp add: positions_def py_range_def)

lemma zero_hash_count_calls:
  assumes "live st" and "stored_hash_count st = 0"
  shows "answer_of (check_member e st) = Value True"
    and "\<exists>st'. add_elem e st = Returns () st' \<and> mapped st' = mapped st"
proof -
  from check_member_live [OF assms(1), of e] show "answer_of (check_member e st) = Value True"
    by (auto simp: assms(2) positions_empty)
  from add_elem_live [OF assms(1), of e]
  show "\<exists>st'. add_elem e st = Returns () st' \<and> mapped st' = mapped st"
    by (auto simp: assms(2) positions_empty set_bits_Nil)
qed

text \<open>
  C10. A valid input gives \<open>hash_count = 0\<close> (\<open>n = 1\<close>, \<open>p = 0.47\<close>: a one-byte array that
  is all zero). On every live filter whose stored \<open>hash_count\<close> is 0, \<open>check_member\<close>
  returns True for every element and \<open>add_elem\<close> returns without changing a byte.
\<close>

theorem zero_hash_count_always_member:
  "(init 1 (47 / 100) ''bloom_filter.bin'' empty_world = Returns tiny_self tiny_world \<and>
    hash_count tiny_self = 0 \<and> stored_hash_count (tiny_self, tiny_world) = 0 \<and>
    mapped (tiny_self, tiny_world) = [0] \<and>
    answer_of (check_member e (tiny_self, tiny_world)) = Value True) \<and>
   (live st \<and> stored_hash_count st = 0 \<longrightarrow>
      answer_of (check_member e st) = Value True \<and>
      (\<exists>st'. add_elem e st = Returns () st' \<and> mapped st' = mapped st))"
proof -
  have z: "stored_hash_count (tiny_self, tiny_world) = 0"
    by (simp add: stored_hash_count_def tiny_self_def tiny_world_def)
  have m: "mapped (tiny_self, tiny_world) = [0]"
    by (simp add: mapped_def tiny_self_def tiny_world_def)
  have h: "hash_count tiny_self = 0" by (simp add: tiny_self_def)
  show ?thesis
    using init_tiny z m h zero_hash_count_calls [OF live_tiny z, of e]
      zero_hash_count_calls [of st e]
    by blast
qed

theorem zero_hash_count_always_member_witness:
  "live (tiny_self, tiny_world) \<and> stored_hash_count (tiny_self, tiny_world) = 0 \<and>
   answer_of (check_member (StrE ''never added'') (tiny_self, tiny_world)) = Value True \<and>
   (\<exists>st'. add_elem (StrE ''never added'') (tiny_self, tiny_world) = Returns () st' \<and>
      mapped st' = mapped (tiny_self, tiny_world))"
proof -
  have z: "stored_hash_count (tiny_self, tiny_world) = 0"
    by (simp add: stored_hash_count_def tiny_self_def tiny_world_def)
  show ?thesis
    using zero_hash_count_always_member [of "StrE ''never added''" "(tiny_self, tiny_world)"]
      live_tiny z
    by blast
qed



subsection \<open>Integers and strings as elements\<close>

lemma add_then_check_answer:
  assumes "live st" and "py_str e' = py_str e"
  shows "answer_of (and_then (add_elem e st) (\<lambda>_. check_member e')) = Value True"
proof -
  from add_then_check [OF assms, of "[]"] obtain st1 st3 where
    "add_elem e st = Returns () st1" and "check_member e' st1 = Returns True st3"
    by auto
  then show ?thesis by simp
qed

text \<open>
  C3, as stated, fails: \<open>str\<close> gives the integer 1 and the string "1" the same string,
  so on the driver's filter the three positions of the two coincide, and after
  \<open>add_elem(1)\<close> the call \<open>check_member("1")\<close> returns True.
\<close>

theorem int_and_string_collide:
  "py_str (IntE 1) = py_str (StrE ''1'') \<and>
   positions 479 3 (py_str (IntE 1)) = positions 479 3 (py_str (StrE ''1'')) \<and>
   answer_of (and_then (add_elem (IntE 1) (driver_self, driver_world))
      (\<lambda>_. check_member (StrE ''1''))) = Value True"
proof -
  have s: "py_str (StrE ''1'') = py_str (IntE 1)" by (simp add: str_int_def digit_char_def)
  have "positions 479 3 (py_str (IntE 1)) = positions 479 3 (py_str (StrE ''1''))"
    by (simp only: s)
  with add_then_check_answer [OF live_driver s] s show ?thesis by simp
qed

text \<open>
  C3, amended. \<open>add_elem\<close> and \<open>check_member\<close> hash \<open>str(elem)\<close>, which is "1" for the
  integer 1 and for the string "1": for every filter and every index the position of the
  two is the same, and on a live filter \<open>add_elem(1)\<close> followed by \<open>check_member("1")\<close>
  returns True.
\<close>

theorem int_and_string_same_positions:
  assumes "live st"
  shows "py_str (IntE 1) = ''1'' \<and> py_str (StrE ''1'') = ''1'' \<and>
     compute_hash self (py_str (IntE 1)) i = compute_hash self (py_str (StrE ''1'')) i \<and>
     answer_of (and_then (add_elem (IntE 1) st) (\<lambda>_. check_member (StrE ''1''))) = Value True"
proof -
  have s: "py_str (StrE ''1'') = py_str (IntE 1)" by (simp add: str_int_def digit_char_def)
  have i: "py_str (IntE 1) = ''1''" by (simp add: str_int_def digit_char_def)
  have "compute_hash self (py_str (IntE 1)) i = compute_hash self (py_str (StrE ''1'')) i"
    by (simp only: s)
  with add_then_check_answer [OF assms s] i show ?thesis by simp
qed

theorem int_and_string_same_positions_witness:
  "live (driver_self, driver_world) \<and>
   py_str (IntE 1) = ''1'' \<and> py_str (StrE ''1'') = ''1'' \<and>
   compute_hash driver_self (py_str (IntE 1)) 2 = compute_hash driver_self (py_str (StrE ''1'')) 2 \<and>
   answer_of (and_then (add_elem (IntE 1) (driver_self, driver_world))
      (\<lambda>_. check_member (StrE ''1''))) = Value True"
  using int_and_string_same_positions [OF live_driver, of driver_self 2] live_driver by simp



subsection \<open>Constructing a filter again at the same path\<close>

lemma wf_world_empty: "wf_world empty_world"
  by (simp add: wf_world_def empty_world_def)









subsection \<open>Calls after delete\<close>

text \<open>An empty metadata file: \<open>pickle.load\<close> meets the end of the file at once.\<close>

lemma load_metadata_empty:
  assumes "dir w (filename self @ ''.meta'') = Some ino" and "inode w ino = Some (Bytes [])"
  shows "load_metadata (self, w) = Raises EOFError (self, w)"
  using assms by (simp add: load_metadata_def)

lemma delete_returns:
  assumes "path_exists (filename b) w" and "path_exists (filename b @ ''.meta'') w"
  shows "delete (b, w) =
     Returns () (b, w\<lparr>dir := (dir w)(filename b := None, filename b @ ''.meta'' := None)\<rparr>)"
  using assms by (simp add: delete_def os_remove_def path_exists_def)

lemma add_elem_no_metadata:
  assumes "dir w (filename b @ ''.meta'') = None" and "serviceQueue b = 1" and "resource b = 1"
  shows "add_elem e (b, w) = Raises FileNotFoundError (b\<lparr>resource := 0\<rparr>, w)"
  using assms by (simp add: add_elem_def semaphore_simps load_metadata_def)

lemma check_member_no_metadata:
  assumes "dir w (filename b @ ''.meta'') = None" and "serviceQueue b = 1" and "resource b = 1"
    and "rmutex b = 1" and "readcount b = 0"
  shows "check_member e (b, w) = Raises FileNotFoundError (b\<lparr>readcount := 1, resource := 0\<rparr>, w)"
  using assms
  by (simp add: check_member_def reader_entry_def semaphore_simps load_metadata_def)

lemma add_elem_hangs:
  assumes "serviceQueue b = 1" and "resource b = 0"
  shows "add_elem e (b, w) = Hangs"
  using assms by (simp add: add_elem_def semaphore_simps)

text \<open>
  C8, as stated, fails: after \<open>delete\<close> the first \<open>add_elem\<close> raises FileNotFoundError
  while it holds \<open>resource\<close>, and the \<open>add_elem\<close> after it (or after a failed
  \<open>check_member\<close>) blocks for ever instead of failing.
\<close>

theorem second_call_after_delete_hangs:
  "answer_of (and_next (delete (driver_self, driver_world)) (add_elem (IntE 1)))
     = Error FileNotFoundError \<and>
   answer_of (and_next (and_next (delete (driver_self, driver_world)) (add_elem (IntE 1)))
      (add_elem (IntE 1))) = Blocked \<and>
   answer_of (and_next (and_next (delete (driver_self, driver_world)) (check_member (IntE 1)))
      (add_elem (IntE 1))) = Blocked"
proof -
  let ?w = "driver_world\<lparr>dir := (dir driver_world)(filename driver_self := None,
              filename driver_self @ ''.meta'' := None)\<rparr>"
  have d: "delete (driver_self, driver_world) = Returns () (driver_self, ?w)"
    by (rule delete_returns) (simp_all add: path_exists_def driver_self_def driver_world_def)
  have a: "add_elem (IntE 1) (driver_self, ?w)
      = Raises FileNotFoundError (driver_self\<lparr>resource := 0\<rparr>, ?w)"
    by (rule add_elem_no_metadata) (simp_all add: driver_self_def)
  have c: "check_member (IntE 1) (driver_self, ?w)
      = Raises FileNotFoundError (driver_self\<lparr>readcount := 1, resource := 0\<rparr>, ?w)"
    by (rule check_member_no_metadata) (simp_all add: driver_self_def)
  have h1: "add_elem (IntE 1) (driver_self\<lparr>resource := 0\<rparr>, ?w) = Hangs"
    by (rule add_elem_hangs) (simp_all add: driver_self_def)
  have h2: "add_elem (IntE 1) (driver_self\<lparr>readcount := 1, resource := 0\<rparr>, ?w) = Hangs"
    by (rule add_elem_hangs) (simp_all add: driver_self_def)
  show ?thesis by (simp add: d a c h1 h2)
qed

text \<open>
  C8, amended. After \<open>delete\<close> returns on a live filter, the next call, \<open>add_elem\<close> or
  \<open>check_member\<close>, fails with FileNotFoundError, raised by \<open>load_metadata\<close>.
\<close>

theorem first_call_after_delete_raises:
  assumes "live st" and "delete st = Returns () st'"
  shows "answer_of (add_elem e st') = Error FileNotFoundError \<and>
     answer_of (check_member e st') = Error FileNotFoundError"
proof -
  obtain b w where st: "st = (b, w)" by (cases st)
  from assms(1) have sems: "resource b = 1" "rmutex b = 1" "serviceQueue b = 1" "readcount b = 0"
    unfolding st by (simp_all add: live_def)
  from assms(2) have st': "st' = (b, w\<lparr>dir := (dir w)(filename b := None, filename b @ ''.meta'' := None)\<rparr>)"
    unfolding st
    by (auto simp: delete_def os_remove_def path_exists_def split: if_splits)
  have gone: "dir (snd st') (filename b @ ''.meta'') = None" by (simp add: st')
  show ?thesis
    unfolding st'
    by (simp add: add_elem_no_metadata check_member_no_metadata sems)
qed

theorem first_call_after_delete_raises_witness:
  "live (driver_self, driver_world) \<and>
   delete (driver_self, driver_world) =
     Returns () (driver_self, driver_world\<lparr>dir := Map.empty\<rparr>) \<and>
   answer_of (add_elem (StrE ''abc'') (driver_self, driver_world\<lparr>dir := Map.empty\<rparr>))
     = Error FileNotFoundError \<and>
   answer_of (check_member (StrE ''abc'') (driver_self, driver_world\<lparr>dir := Map.empty\<rparr>))
     = Error FileNotFoundError"
proof -
  have d: "delete (driver_self, driver_world) =
     Returns () (driver_self, driver_world\<lparr>dir := Map.empty\<rparr>)"
    by (simp add: delete_def os_remove_def path_exists_def driver_self_def driver_world_def)
  show ?thesis
    using first_call_after_delete_raises [OF live_driver d, of "StrE ''abc''"] live_driver d
    by simp
qed



subsection \<open>Several threads in add\_elem: what one step does\<close>

lemma backed_cases:
  assumes "backed (b, w)"
  obtains m bs where
    "dir w (filename b @ ''.meta'') = Some m"
    and "inode w m = Some (Pickle (stored_size (b, w)) (stored_hash_count (b, w)))"
    and "inode w (bit_array b) = Some (Bytes bs)" and "mapped (b, w) = bs"
    and "0 < stored_size (b, w)" and "int (length bs) = stored_size (b, w)"
    and "m \<noteq> bit_array b"
proof -
  from assms obtain m sz hc bs where
    a: "dir w (filename b @ ''.meta'') = Some m" "inode w m = Some (Pickle sz hc)"
      "inode w (bit_array b) = Some (Bytes bs)" "0 < sz" "int (length bs) = sz"
    unfolding backed_def by (auto split: option.splits content.splits)
  have "stored_size (b, w) = sz" "stored_hash_count (b, w) = hc" "mapped (b, w) = bs"
    using a by (simp_all add: stored_size_def stored_hash_count_def mapped_def)
  moreover have "m \<noteq> bit_array b" using a by auto
  ultimately show thesis using a that [of m bs] by simp
qed

lemma live_backed: "live st \<Longrightarrow> backed st"
  by (simp add: live_def backed_def)

lemma thread_step_effect:
  assumes "backed (b, w)" and "thread_step e l (b, w) = Some (l', st')"
    and "loaded l \<longrightarrow> size_bf b = stored_size (b, w)"
  obtains
    (gate) "l = At61" "0 < serviceQueue b" "l' = At62"
      "st' = (b\<lparr>serviceQueue := serviceQueue b - 1\<rparr>, w)"
  | (enter) "l = At62" "0 < resource b" "l' = At63"
      "st' = (b\<lparr>resource := resource b - 1\<rparr>, w)"
  | (open_gate) "l = At63" "l' = At65" "st' = (b\<lparr>serviceQueue := serviceQueue b + 1\<rparr>, w)"
  | (load) "l = At65" "l' = At66 (py_range (stored_hash_count (b, w)))"
      "st' = (b\<lparr>size_bf := stored_size (b, w), hash_count := stored_hash_count (b, w)\<rparr>, w)"
  | (store) i rest where "l = At66 (i # rest)" "l' = At66 rest"
      "st' = (b, w\<lparr>inode := (inode w)(bit_array b \<mapsto>
          Bytes ((mapped (b, w))[position (stored_size (b, w)) (py_str e) i := 1]))\<rparr>)"
  | (loop_end) "l = At66 []" "l' = At69" "st' = (b, w)"
  | (flush) "l = At69" "l' = At73" "st' = (b, w)"
  | (leave) "l = At73" "l' = Returned" "st' = (b\<lparr>resource := resource b + 1\<rparr>, w)"
proof -
  from assms(1) obtain m bs where
    meta: "dir w (filename b @ ''.meta'') = Some m"
    and pick: "inode w m = Some (Pickle (stored_size (b, w)) (stored_hash_count (b, w)))"
    and arr: "inode w (bit_array b) = Some (Bytes bs)" and mp: "mapped (b, w) = bs"
    and pos: "0 < stored_size (b, w)" and len: "int (length bs) = stored_size (b, w)"
    by (rule backed_cases)
  show thesis
  proof (cases l)
    case At61
    with assms(2) gate show ?thesis
      by (auto simp: advance_def semaphore_simps split: if_splits)
  next
    case At62
    with assms(2) enter show ?thesis
      by (auto simp: advance_def semaphore_simps split: if_splits)
  next
    case At63
    with assms(2) open_gate show ?thesis
      by (auto simp: advance_def semaphore_simps)
  next
    case At65
    with assms(2) load show ?thesis
      by (auto simp: load_metadata_def meta pick)
  next
    case (At66 js)
    show ?thesis
    proof (cases js)
      case Nil
      with At66 assms(2) loop_end show ?thesis by auto
    next
      case (Cons i rest)
      have sz: "size_bf b = stored_size (b, w)" using assms(3) At66 by simp
      let ?p = "position (stored_size (b, w)) (py_str e) i"
      have lt: "?p < length bs" using position_less [OF pos, of "py_str e" i] len by simp
      have h: "compute_hash b (py_str e) i = Inr (int ?p)"
        using compute_hash_position [of b "py_str e" i] pos sz by simp
      have "mmap_set (int ?p) 1 (b, w) =
          Returns () (b, w\<lparr>inode := (inode w)(bit_array b \<mapsto> Bytes (bs[?p := 1]))\<rparr>)"
        by (simp add: mmap_set_def arr mmap_index_nat [OF lt])
      with At66 Cons assms(2) h store [of i rest] show ?thesis
        by (auto simp: advance_def mp)
    qed
  next
    case At69
    with assms(2) flush show ?thesis by auto
  next
    case At73
    with assms(2) leave show ?thesis
      by (auto simp: advance_def semaphore_simps)
  next
    case Returned
    with assms(2) show ?thesis by simp
  next
    case (Raised x)
    with assms(2) show ?thesis by simp
  qed
qed


lemma sum_list_map_update:
  fixes f :: "'a \<Rightarrow> nat"
  assumes "t < length ts"
  shows "sum_list (map f (ts[t := x])) + f (ts ! t) = sum_list (map f ts) + f x"
  using assms
proof (induction ts arbitrary: t)
  case Nil
  then show ?case by simp
next
  case (Cons a ts)
  then show ?case by (cases t) auto
qed

lemma gate_holders_update:
  assumes "t < length ts" and "ts ! t = (e, l)"
  shows "gate_holders (ts[t := (e, l')]) + holds_gate l = gate_holders ts + holds_gate l'"
  using sum_list_map_update [OF assms(1), of "holds_gate \<circ> snd" "(e, l')"] assms(2)
  by (simp add: gate_holders_def)

lemma writers_inside_update:
  assumes "t < length ts" and "ts ! t = (e, l)"
  shows "writers_inside (ts[t := (e, l')]) + holds_resource l = writers_inside ts + holds_resource l'"
  using sum_list_map_update [OF assms(1), of "holds_resource \<circ> snd" "(e, l')"] assms(2)
  by (simp add: writers_inside_def)

lemma work_left_update:
  assumes "t < length ts" and "ts ! t = (e, l)"
  shows "work_left k (ts[t := (e, l')]) + steps_left k l = work_left k ts + steps_left k l'"
  using sum_list_map_update [OF assms(1), of "steps_left k \<circ> snd" "(e, l')"] assms(2)
  by (simp add: work_left_def)

lemma all_written_iff:
  "q \<in> all_written sz hc ts \<longleftrightarrow> (\<exists>t < length ts. q \<in> written sz hc (ts ! t))"
  by (auto simp: all_written_def)

lemma all_written_update:
  assumes "t < length ts" and "written sz hc (ts ! t) \<subseteq> written sz hc x"
  shows "all_written sz hc (ts[t := x]) = all_written sz hc ts \<union> written sz hc x"
proof (rule set_eqI)
  fix q
  show "q \<in> all_written sz hc (ts[t := x]) \<longleftrightarrow> q \<in> all_written sz hc ts \<union> written sz hc x"
  proof
    assume "q \<in> all_written sz hc (ts[t := x])"
    then obtain t' where t': "t' < length ts" "q \<in> written sz hc (ts[t := x] ! t')"
      by (auto simp: all_written_iff)
    show "q \<in> all_written sz hc ts \<union> written sz hc x"
    proof (cases "t' = t")
      case True
      with t' assms(1) show ?thesis by simp
    next
      case False
      with t' have "q \<in> written sz hc (ts ! t')" by simp
      with t'(1) show ?thesis by (auto simp: all_written_iff)
    qed
  next
    assume "q \<in> all_written sz hc ts \<union> written sz hc x"
    then consider "q \<in> written sz hc x"
      | t' where "t' < length ts" "q \<in> written sz hc (ts ! t')" "q \<notin> written sz hc x"
      by (auto simp: all_written_iff)
    then show "q \<in> all_written sz hc (ts[t := x])"
    proof cases
      case 1
      then have "q \<in> written sz hc (ts[t := x] ! t)" using assms(1) by simp
      then show ?thesis using assms(1) by (auto simp: all_written_iff)
    next
      case 2
      then have "t' \<noteq> t" using assms(2) by auto
      then have "q \<in> written sz hc (ts[t := x] ! t')" using 2 by simp
      then show ?thesis using 2(1) by (auto simp: all_written_iff)
    qed
  qed
qed

lemma written_subset_all:
  "t < length ts \<Longrightarrow> ts ! t = th \<Longrightarrow> written sz hc th \<subseteq> all_written sz hc ts"
  by (auto simp: all_written_iff)

lemma all_written_update_same:
  assumes "t < length ts" and "written sz hc x = written sz hc (ts ! t)"
  shows "all_written sz hc (ts[t := x]) = all_written sz hc ts"
proof -
  have "written sz hc (ts ! t) \<subseteq> all_written sz hc ts"
    using assms(1) by (auto simp: all_written_iff)
  then show ?thesis
    using all_written_update [OF assms(1), of sz hc x] assms(2) by auto
qed

lemma distinct_py_range: "distinct (py_range hc)"
  by (simp add: py_range_def distinct_map inj_on_def)

lemma written_store:
  assumes "i # rest = drop k (py_range hc)"
  shows "written sz hc (e, At66 rest) =
     insert (position sz (py_str e) i) (written sz hc (e, At66 (i # rest)))"
proof -
  have d: "distinct (i # rest)" unfolding assms by (rule distinct_drop [OF distinct_py_range])
  have "set (i # rest) \<subseteq> set (py_range hc)" unfolding assms by (rule set_drop_subset)
  then have "set (py_range hc) - set rest = insert i (set (py_range hc) - set (i # rest))"
    using d by auto
  then show ?thesis by simp
qed


lemma frame_sems:
  assumes "frame st0 (b, w)" and "filename b' = filename b" and "bit_array b' = bit_array b"
  shows "frame st0 (b', w)" and "mapped (b', w) = mapped (b, w)"
  using assms
  by (auto simp: frame_def backed_def stored_size_def stored_hash_count_def mapped_def
        split: option.splits content.splits)

lemma frame_store:
  assumes "frame st0 (b, w)"
  shows "frame st0 (b, w\<lparr>inode := (inode w)(bit_array b \<mapsto> Bytes ((mapped (b, w))[p := 1]))\<rparr>)"
    and "mapped (b, w\<lparr>inode := (inode w)(bit_array b \<mapsto> Bytes ((mapped (b, w))[p := 1]))\<rparr>)
         = (mapped (b, w))[p := 1]"
proof -
  from assms have bk: "backed (b, w)" by (simp add: frame_def)
  from bk obtain m bs where
    meta: "dir w (filename b @ ''.meta'') = Some m"
    and pick: "inode w m = Some (Pickle (stored_size (b, w)) (stored_hash_count (b, w)))"
    and arr: "inode w (bit_array b) = Some (Bytes bs)" and mp: "mapped (b, w) = bs"
    and pos: "0 < stored_size (b, w)" and len: "int (length bs) = stored_size (b, w)"
    and ne: "m \<noteq> bit_array b"
    by (rule backed_cases)
  let ?w = "w\<lparr>inode := (inode w)(bit_array b \<mapsto> Bytes ((mapped (b, w))[p := 1]))\<rparr>"
  show m': "mapped (b, ?w) = (mapped (b, w))[p := 1]" by (simp add: mapped_def)
  have s: "stored_size (b, ?w) = stored_size (b, w)"
    "stored_hash_count (b, ?w) = stored_hash_count (b, w)"
    using meta pick ne by (simp_all add: stored_size_def stored_hash_count_def)
  have "backed (b, ?w)" using meta pick ne pos len mp by (simp add: backed_def)
  then show "frame st0 (b, ?w)" using assms s m' by (simp add: frame_def)
qed

lemma invar_step:
  assumes inv: "invar st0 (ts, st)" and t: "t < length ts" and th: "ts ! t = (e, l)"
    and stp: "thread_step e l st = Some (l', st')"
  shows "invar st0 (ts[t := (e, l')], st')"
proof -
  obtain b w where st: "st = (b, w)" by (cases st)
  let ?sz = "stored_size st0" and ?hc = "stored_hash_count st0"
  let ?ts = "ts[t := (e, l')]"
  from inv have fr: "frame st0 (b, w)"
    and ig: "serviceQueue b + gate_holders ts = 1"
    and ir: "resource b + writers_inside ts = 1"
    and ld: "\<forall>th \<in> set ts. loaded (snd th) \<longrightarrow> size_bf b = ?sz \<and> hash_count b = ?hc"
    and suf: "\<forall>th \<in> set ts. \<forall>rest. snd th = At66 rest \<longrightarrow> (\<exists>k. rest = drop k (py_range ?hc))"
    and nr: "\<forall>th \<in> set ts. \<forall>x. snd th \<noteq> Raised x"
    and bytes: "\<forall>q < length (mapped st0).
            mapped (b, w) ! q = (if q \<in> all_written ?sz ?hc ts then 1 else mapped st0 ! q)"
    unfolding invar_def st by (simp_all add: Let_def)
  have mem: "(e, l) \<in> set ts" using t th by (metis nth_mem)
  have suf': "\<exists>k. js = drop k (py_range ?hc)" if "(e', At66 js) \<in> set ts" for e' js
    using bspec [OF suf that] by simp
  have other: "th' = (e, l') \<or> th' \<in> set ts" if "th' \<in> set ?ts" for th'
    using that set_update_subset_insert [of ts t "(e, l')"] by auto
  have G: "gate_holders ?ts + holds_gate l = gate_holders ts + holds_gate l'"
    by (rule gate_holders_update [OF t th])
  have R: "writers_inside ?ts + holds_resource l = writers_inside ts + holds_resource l'"
    by (rule writers_inside_update [OF t th])
  have bk: "backed (b, w)" and ss: "stored_size (b, w) = ?sz" "stored_hash_count (b, w) = ?hc"
    and ln: "length (mapped (b, w)) = length (mapped st0)"
    using fr by (simp_all add: frame_def)
  have me: "loaded l \<longrightarrow> size_bf b = ?sz \<and> hash_count b = ?hc"
    using bspec [OF ld mem] by simp
  have pre: "loaded l \<longrightarrow> size_bf b = stored_size (b, w)" using me ss by simp
  have same: "all_written ?sz ?hc ?ts = all_written ?sz ?hc ts"
    if "written ?sz ?hc (e, l') = written ?sz ?hc (e, l)"
    using all_written_update_same [OF t, of ?sz ?hc "(e, l')"] that th by simp
  have rest_inv:
    "(\<forall>th \<in> set ?ts. loaded (snd th) \<longrightarrow> size_bf b' = ?sz \<and> hash_count b' = ?hc) \<and>
     (\<forall>th \<in> set ?ts. \<forall>rest. snd th = At66 rest \<longrightarrow> (\<exists>k. rest = drop k (py_range ?hc))) \<and>
     (\<forall>th \<in> set ?ts. \<forall>x. snd th \<noteq> Raised x)"
    if "size_bf b' = size_bf b \<and> hash_count b' = hash_count b \<or> size_bf b' = ?sz \<and> hash_count b' = ?hc"
      and "loaded l' \<longrightarrow> size_bf b' = ?sz \<and> hash_count b' = ?hc"
      and "\<forall>rest. l' = At66 rest \<longrightarrow> (\<exists>k. rest = drop k (py_range ?hc))"
      and "\<forall>x. l' \<noteq> Raised x"
    for b' :: bloom
  proof -
    have A: "size_bf b' = ?sz \<and> hash_count b' = ?hc" if m: "th' \<in> set ?ts" and l: "loaded (snd th')" for th'
      using other [OF m]
    proof (rule disjE)
      assume "th' = (e, l')"
      with l \<open>loaded l' \<longrightarrow> size_bf b' = ?sz \<and> hash_count b' = ?hc\<close> show ?thesis by simp
    next
      assume "th' \<in> set ts"
      with ld l have "size_bf b = ?sz \<and> hash_count b = ?hc" by blast
      with \<open>size_bf b' = size_bf b \<and> hash_count b' = hash_count b \<or> size_bf b' = ?sz \<and> hash_count b' = ?hc\<close>
      show ?thesis by auto
    qed
    have B: "\<exists>k. rest = drop k (py_range ?hc)" if m: "th' \<in> set ?ts" and l: "snd th' = At66 rest" for th' rest
      using other [OF m]
    proof (rule disjE)
      assume "th' = (e, l')"
      with l \<open>\<forall>rest. l' = At66 rest \<longrightarrow> (\<exists>k. rest = drop k (py_range ?hc))\<close> show ?thesis by simp
    next
      assume "th' \<in> set ts"
      with suf l show ?thesis by blast
    qed
    have C: "snd th' \<noteq> Raised x" if m: "th' \<in> set ?ts" for th' x
      using other [OF m]
    proof (rule disjE)
      assume "th' = (e, l')"
      with \<open>\<forall>x. l' \<noteq> Raised x\<close> show ?thesis by simp
    next
      assume "th' \<in> set ts"
      with nr show ?thesis by blast
    qed
    from A B C show ?thesis by blast
  qed
  from bk stp [unfolded st] pre show ?thesis
  proof (cases rule: thread_step_effect)
    case gate
    let ?b = "b\<lparr>serviceQueue := serviceQueue b - 1\<rparr>"
    have f: "frame st0 (?b, w)" "mapped (?b, w) = mapped (b, w)"
      by (rule frame_sems [OF fr]; simp)+
    show ?thesis
      unfolding invar_def gate
      using f gate(2) G R gate(1,3) ig ir bytes same rest_inv [of ?b]
      by (simp add: Let_def)
  next
    case enter
    let ?b = "b\<lparr>resource := resource b - 1\<rparr>"
    have f: "frame st0 (?b, w)" "mapped (?b, w) = mapped (b, w)"
      by (rule frame_sems [OF fr]; simp)+
    show ?thesis
      unfolding invar_def enter
      using f enter(2) G R enter(1,3) ig ir bytes same rest_inv [of ?b]
      by (simp add: Let_def)
  next
    case open_gate
    let ?b = "b\<lparr>serviceQueue := serviceQueue b + 1\<rparr>"
    have f: "frame st0 (?b, w)" "mapped (?b, w) = mapped (b, w)"
      by (rule frame_sems [OF fr]; simp)+
    show ?thesis
      unfolding invar_def open_gate
      using f G R open_gate(1,2) ig ir bytes same rest_inv [of ?b]
      by (simp add: Let_def)
  next
    case load
    let ?b = "b\<lparr>size_bf := stored_size (b, w), hash_count := stored_hash_count (b, w)\<rparr>"
    have f: "frame st0 (?b, w)" "mapped (?b, w) = mapped (b, w)"
      by (rule frame_sems [OF fr]; simp)+
    have d: "\<exists>k. py_range ?hc = drop k (py_range ?hc)" by (rule exI [of _ 0]) simp
    show ?thesis
      unfolding invar_def load
      using f G R load(1,2) ig ir bytes same rest_inv [of ?b] ss d
      by (simp add: Let_def)
  next
    case (store i rest)
    let ?p = "position (stored_size (b, w)) (py_str e) i"
    let ?w = "w\<lparr>inode := (inode w)(bit_array b \<mapsto> Bytes ((mapped (b, w))[?p := 1]))\<rparr>"
    have f: "frame st0 (b, ?w)" "mapped (b, ?w) = (mapped (b, w))[?p := 1]"
      by (rule frame_store [OF fr])+
    from suf' [of e "i # rest"] mem store(1) obtain k where
      k: "i # rest = drop k (py_range ?hc)" by auto
    have k': "rest = drop (Suc k) (py_range ?hc)"
      using k by (metis drop_Suc list.sel(3) tl_drop)
    have wr: "written ?sz ?hc (e, At66 rest) = insert ?p (written ?sz ?hc (e, At66 (i # rest)))"
      using written_store [OF k, of ?sz e] ss by simp
    have aw: "all_written ?sz ?hc ?ts = insert ?p (all_written ?sz ?hc ts)"
    proof -
      have "written ?sz ?hc (ts ! t) \<subseteq> written ?sz ?hc (e, l')"
        using wr th store(1,2) by auto
      from all_written_update [OF t this]
      have "all_written ?sz ?hc ?ts = all_written ?sz ?hc ts \<union> written ?sz ?hc (e, l')" .
      moreover have "written ?sz ?hc (e, l) \<subseteq> all_written ?sz ?hc ts"
        by (rule written_subset_all [OF t th])
      ultimately show ?thesis using wr store(1,2) by auto
    qed
    have by': "\<forall>q < length (mapped st0).
        (mapped (b, w))[?p := 1] ! q = (if q \<in> insert ?p (all_written ?sz ?hc ts) then 1 else mapped st0 ! q)"
    proof (intro allI impI)
      fix q assume q: "q < length (mapped st0)"
      then have ql: "q < length (mapped (b, w))" using ln by simp
      from bytes q have old: "mapped (b, w) ! q =
          (if q \<in> all_written ?sz ?hc ts then 1 else mapped st0 ! q)" by blast
      show "(mapped (b, w))[?p := 1] ! q =
          (if q \<in> insert ?p (all_written ?sz ?hc ts) then 1 else mapped st0 ! q)"
        using ql old by (cases "q = ?p") simp_all
    qed
    have r: "(\<forall>th \<in> set ?ts. loaded (snd th) \<longrightarrow> size_bf b = ?sz \<and> hash_count b = ?hc) \<and>
     (\<forall>th \<in> set ?ts. \<forall>rest. snd th = At66 rest \<longrightarrow> (\<exists>k. rest = drop k (py_range ?hc))) \<and>
     (\<forall>th \<in> set ?ts. \<forall>x. snd th \<noteq> Raised x)"
    proof (rule rest_inv)
      show "\<forall>rest. l' = At66 rest \<longrightarrow> (\<exists>k. rest = drop k (py_range ?hc))"
        using store(2) k' by auto
    qed (use me store(1,2) in simp_all)
    show ?thesis
      unfolding invar_def store
      using f G R store(1,2) ig ir r aw by'
      by (simp add: Let_def)
  next
    case loop_end
    have r: "(\<forall>th \<in> set ?ts. loaded (snd th) \<longrightarrow> size_bf b = ?sz \<and> hash_count b = ?hc) \<and>
     (\<forall>th \<in> set ?ts. \<forall>rest. snd th = At66 rest \<longrightarrow> (\<exists>k. rest = drop k (py_range ?hc))) \<and>
     (\<forall>th \<in> set ?ts. \<forall>x. snd th \<noteq> Raised x)"
      by (rule rest_inv) (use me loop_end(1,2) in simp_all)
    show ?thesis
      unfolding invar_def loop_end
      using fr G R loop_end(1,2) ig ir bytes same r
      by (simp add: Let_def)
  next
    case flush
    have r: "(\<forall>th \<in> set ?ts. loaded (snd th) \<longrightarrow> size_bf b = ?sz \<and> hash_count b = ?hc) \<and>
     (\<forall>th \<in> set ?ts. \<forall>rest. snd th = At66 rest \<longrightarrow> (\<exists>k. rest = drop k (py_range ?hc))) \<and>
     (\<forall>th \<in> set ?ts. \<forall>x. snd th \<noteq> Raised x)"
      by (rule rest_inv) (use me flush(1,2) in simp_all)
    show ?thesis
      unfolding invar_def flush
      using fr G R flush(1,2) ig ir bytes same r
      by (simp add: Let_def)
  next
    case leave
    let ?b = "b\<lparr>resource := resource b + 1\<rparr>"
    have f: "frame st0 (?b, w)" "mapped (?b, w) = mapped (b, w)"
      by (rule frame_sems [OF fr]; simp)+
    have r: "(\<forall>th \<in> set ?ts. loaded (snd th) \<longrightarrow> size_bf ?b = ?sz \<and> hash_count ?b = ?hc) \<and>
     (\<forall>th \<in> set ?ts. \<forall>rest. snd th = At66 rest \<longrightarrow> (\<exists>k. rest = drop k (py_range ?hc))) \<and>
     (\<forall>th \<in> set ?ts. \<forall>x. snd th \<noteq> Raised x)"
      by (rule rest_inv) (use me leave(1,2) in simp_all)
    show ?thesis
      unfolding invar_def leave
      using f G R leave(1,2) ig ir bytes same r
      by (simp add: Let_def)
  qed
qed


subsection \<open>The invariant holds along every interleaving\<close>

lemma start_sums:
  "gate_holders (start es) = 0" "writers_inside (start es) = 0"
  by (induction es) (simp_all add: start_def gate_holders_def writers_inside_def)

lemma start_written: "all_written sz hc (start es) = {}"
  by (auto simp: all_written_iff start_def)

lemma invar_start:
  assumes "live st0"
  shows "invar st0 (start es, st0)"
proof -
  have f: "frame st0 st0" using live_backed [OF assms] by (simp add: frame_def)
  have s: "serviceQueue (fst st0) = 1" "resource (fst st0) = 1"
    using assms by (simp_all add: live_def)
  have n: "snd th = At61" if "th \<in> set (start es)" for th
    using that by (auto simp: start_def)
  show ?thesis
    unfolding invar_def Let_def
    using f s n by (auto simp: start_sums start_written)
qed

lemma invar_steps:
  assumes "steps c c'" and "invar st0 c"
  shows "invar st0 c'"
  using assms unfolding steps_def
proof (induction rule: rtranclp_induct)
  case base
  then show ?case .
next
  case (step y z)
  from step.hyps(2) show ?case
  proof (cases rule: step.cases)
    case (1 t ts elem l st l' st')
    with step.IH [OF step.prems] show ?thesis by (auto intro: invar_step)
  qed
qed

lemma step_elems: "step c c' \<Longrightarrow> map fst (fst c') = map fst (fst c)"
  by (auto elim!: step.cases simp: map_update list_update_same_conv)

lemma steps_elems:
  assumes "steps c c'"
  shows "map fst (fst c') = map fst (fst c)"
  using assms unfolding steps_def
  by (induction rule: rtranclp_induct) (simp_all add: step_elems)

lemma final_threads:
  assumes "final ts" and "map fst ts = es"
  shows "ts = map (\<lambda>e. (e, Returned)) es"
  using assms
  by (induction ts arbitrary: es) (auto simp: final_def)

lemma written_final:
  "all_written sz hc (map (\<lambda>e. (e, Returned)) es)
     = set (concat (map (\<lambda>e. positions sz hc (py_str e)) es))"
proof (rule set_eqI)
  fix q
  have "q \<in> all_written sz hc (map (\<lambda>e. (e, Returned)) es)
      \<longleftrightarrow> (\<exists>t < length es. q \<in> position sz (py_str (es ! t)) ` set (py_range hc))"
    by (auto simp: all_written_iff)
  also have "\<dots> \<longleftrightarrow> (\<exists>e \<in> set es. q \<in> position sz (py_str e) ` set (py_range hc))"
    by (metis in_set_conv_nth)
  also have "\<dots> \<longleftrightarrow> q \<in> set (concat (map (\<lambda>e. positions sz hc (py_str e)) es))"
    by (auto simp: positions_def)
  finally show "q \<in> all_written sz hc (map (\<lambda>e. (e, Returned)) es)
      \<longleftrightarrow> q \<in> set (concat (map (\<lambda>e. positions sz hc (py_str e)) es))" .
qed

lemma set_bits_nth:
  assumes "q < length bs"
  shows "set_bits bs ps ! q = (if q \<in> set ps then 1 else bs ! q)"
  using assms set_bits_sets [of q ps bs] set_bits_other [of q ps bs] by auto

lemma set_bits_append: "set_bits bs (ps @ qs) = set_bits (set_bits bs ps) qs"
  by (simp add: set_bits_def)

lemma set_bits_cong_set:
  assumes "set ps = set qs"
  shows "set_bits bs ps = set_bits bs qs"
  by (rule nth_equalityI) (simp_all add: length_set_bits set_bits_nth assms)

lemma add_all_mapped:
  assumes "live st"
  shows "\<exists>st'. add_all es st = Returns () st' \<and>
     mapped st' = set_bits (mapped st)
       (concat (map (\<lambda>e. positions (stored_size st) (stored_hash_count st) (py_str e)) es))"
  using assms
proof (induction es arbitrary: st)
  case Nil
  then show ?case by (simp add: set_bits_Nil)
next
  case (Cons x xs)
  from add_elem_live [OF Cons.prems, of x] obtain s1 where
    a: "add_elem x st = Returns () s1" and l: "live s1"
    and same: "stored_size s1 = stored_size st" "stored_hash_count s1 = stored_hash_count st"
    and m: "mapped s1 = set_bits (mapped st)
        (positions (stored_size st) (stored_hash_count st) (py_str x))"
    by blast
  from Cons.IH [OF l] obtain s2 where
    b: "add_all xs s1 = Returns () s2"
    and m2: "mapped s2 = set_bits (mapped s1)
       (concat (map (\<lambda>e. positions (stored_size s1) (stored_hash_count s1) (py_str e)) xs))"
    by blast
  show ?case using a b by (simp add: m2 m same set_bits_append)
qed

lemma final_mapped:
  assumes "invar st0 (ts, st)" and "final ts" and "map fst ts = es"
  shows "mapped st = set_bits (mapped st0)
     (concat (map (\<lambda>e. positions (stored_size st0) (stored_hash_count st0) (py_str e)) es))"
proof (rule nth_equalityI)
  from assms(1) have ln: "length (mapped st) = length (mapped st0)"
    and bytes: "\<forall>q < length (mapped st0). mapped st ! q =
        (if q \<in> all_written (stored_size st0) (stored_hash_count st0) ts then 1 else mapped st0 ! q)"
    by (simp_all add: invar_def Let_def frame_def)
  show "length (mapped st) = length (set_bits (mapped st0)
     (concat (map (\<lambda>e. positions (stored_size st0) (stored_hash_count st0) (py_str e)) es)))"
    by (simp add: ln length_set_bits)
  fix q assume "q < length (mapped st)"
  then have q: "q < length (mapped st0)" using ln by simp
  have ts: "ts = map (\<lambda>e. (e, Returned)) es" by (rule final_threads [OF assms(2,3)])
  show "mapped st ! q = set_bits (mapped st0)
     (concat (map (\<lambda>e. positions (stored_size st0) (stored_hash_count st0) (py_str e)) es)) ! q"
    using bytes q by (simp add: set_bits_nth ts written_final)
qed


subsection \<open>No deadlock, and every interleaving ends\<close>

lemma thread_step_enabled:
  assumes "backed (b, w)" and "loaded l \<longrightarrow> size_bf b = stored_size (b, w)"
    and "l = At61 \<and> 0 < serviceQueue b \<or> l = At62 \<and> 0 < resource b \<or> holds_resource l = 1"
  shows "\<exists>l' st'. thread_step e l (b, w) = Some (l', st')"
proof -
  from assms(1) obtain m bs where
    meta: "dir w (filename b @ ''.meta'') = Some m"
    and pick: "inode w m = Some (Pickle (stored_size (b, w)) (stored_hash_count (b, w)))"
    and arr: "inode w (bit_array b) = Some (Bytes bs)"
    and pos: "0 < stored_size (b, w)" and len: "int (length bs) = stored_size (b, w)"
    by (rule backed_cases)
  show ?thesis
  proof (cases l)
    case At61
    with assms(3) show ?thesis by (simp add: advance_def semaphore_simps)
  next
    case At62
    with assms(3) show ?thesis by (simp add: advance_def semaphore_simps)
  next
    case At63
    then show ?thesis by (simp add: advance_def semaphore_simps)
  next
    case At65
    then show ?thesis by (simp add: load_metadata_def meta pick)
  next
    case (At66 js)
    show ?thesis
    proof (cases js)
      case Nil
      with At66 show ?thesis by simp
    next
      case (Cons i rest)
      have sz: "size_bf b = stored_size (b, w)" using assms(2) At66 by simp
      let ?p = "position (stored_size (b, w)) (py_str e) i"
      have lt: "?p < length bs" using position_less [OF pos, of "py_str e" i] len by simp
      have h: "compute_hash b (py_str e) i = Inr (int ?p)"
        using compute_hash_position [of b "py_str e" i] pos sz by simp
      show ?thesis
        using At66 Cons h by (simp add: advance_def mmap_set_def arr mmap_index_nat [OF lt])
    qed
  next
    case At69
    then show ?thesis by simp
  next
    case At73
    then show ?thesis by (simp add: advance_def semaphore_simps)
  next
    case Returned
    with assms(3) show ?thesis by simp
  next
    case (Raised x)
    with assms(3) show ?thesis by simp
  qed
qed

lemma holds_resource_cases: "holds_resource l = 0 \<or> holds_resource l = 1"
  by (cases l) simp_all

lemma progress:
  assumes inv: "invar st0 (ts, st)" and nf: "\<not> final ts"
  shows "\<exists>c'. step (ts, st) c'"
proof -
  obtain b w where st: "st = (b, w)" by (cases st)
  let ?sz = "stored_size st0" and ?hc = "stored_hash_count st0"
  from inv have fr: "frame st0 (b, w)"
    and ig: "serviceQueue b + gate_holders ts = 1"
    and ir: "resource b + writers_inside ts = 1"
    and ld: "\<forall>th \<in> set ts. loaded (snd th) \<longrightarrow> size_bf b = ?sz \<and> hash_count b = ?hc"
    and nr: "\<forall>th \<in> set ts. \<forall>x. snd th \<noteq> Raised x"
    unfolding invar_def st by (simp_all add: Let_def)
  have bk: "backed (b, w)" and ss: "stored_size (b, w) = ?sz"
    using fr by (simp_all add: frame_def)
  have go: "\<exists>c'. step (ts, st) c'"
    if m: "(e, l) \<in> set ts"
      and en: "l = At61 \<and> 0 < serviceQueue b \<or> l = At62 \<and> 0 < resource b \<or> holds_resource l = 1"
    for e l
  proof -
    from m obtain t where t: "t < length ts" "ts ! t = (e, l)" by (auto simp: in_set_conv_nth)
    have pre: "loaded l \<longrightarrow> size_bf b = stored_size (b, w)"
      using bspec [OF ld m] ss by simp
    from thread_step_enabled [OF bk pre en, of e] obtain l' st' where
      "thread_step e l (b, w) = Some (l', st')" by blast
    from step.intros [OF t this] show ?thesis unfolding st by blast
  qed
  show ?thesis
  proof (cases "\<exists>th \<in> set ts. holds_resource (snd th) = 1")
    case True
    then obtain e l where "(e, l) \<in> set ts" "holds_resource l = 1" by force
    then show ?thesis using go [of e l] by blast
  next
    case False
    then have z: "\<forall>th \<in> set ts. holds_resource (snd th) = 0"
      using holds_resource_cases by blast
    then have "writers_inside ts = 0" by (simp add: writers_inside_def)
    with ir have r1: "resource b = 1" by simp
    show ?thesis
    proof (cases "\<exists>th \<in> set ts. snd th = At62")
      case True
      then obtain e where "(e, At62) \<in> set ts" by force
      then show ?thesis using r1 go [of e At62] by simp
    next
      case no62: False
      have "holds_gate (snd th) = 0" if "th \<in> set ts" for th
        using that z no62 by (cases "snd th") auto
      then have "gate_holders ts = 0" by (simp add: gate_holders_def)
      with ig have s1: "serviceQueue b = 1" by simp
      from nf obtain e l where m: "(e, l) \<in> set ts" and nd: "l \<noteq> Returned"
        by (force simp: final_def list_all_iff)
      have "l = At61"
        using bspec [OF z m] bspec [OF nr m] no62 m nd by (cases l) auto
      with m s1 show ?thesis using go [of e At61] by simp
    qed
  qed
qed

lemma step_decreases:
  assumes inv: "invar st0 (ts, st)" and stp: "step (ts, st) (ts', st')"
  shows "work_left (nat (stored_hash_count st0)) ts' < work_left (nat (stored_hash_count st0)) ts"
proof -
  let ?k = "nat (stored_hash_count st0)"
  from stp obtain t e l l' where t: "t < length ts" "ts ! t = (e, l)"
    and ts': "ts' = ts[t := (e, l')]" and th: "thread_step e l st = Some (l', st')"
    by (auto elim!: step.cases)
  obtain b w where st: "st = (b, w)" by (cases st)
  from inv have fr: "frame st0 (b, w)"
    and ld: "\<forall>th \<in> set ts. loaded (snd th) \<longrightarrow>
        size_bf b = stored_size st0 \<and> hash_count b = stored_hash_count st0"
    unfolding invar_def st by (simp_all add: Let_def)
  have bk: "backed (b, w)" and ss: "stored_size (b, w) = stored_size st0"
    "stored_hash_count (b, w) = stored_hash_count st0"
    using fr by (simp_all add: frame_def)
  have mem: "(e, l) \<in> set ts" using t by (metis nth_mem)
  have pre: "loaded l \<longrightarrow> size_bf b = stored_size (b, w)"
    using bspec [OF ld mem] ss by simp
  have "steps_left ?k l' < steps_left ?k l"
    using bk th [unfolded st] pre
    by (cases rule: thread_step_effect) (simp_all add: ss py_range_def)
  with work_left_update [OF t, of ?k l'] show ?thesis unfolding ts' by linarith
qed

lemma reach_final:
  assumes "invar st0 c"
  shows "\<exists>c'. steps c c' \<and> final (fst c')"
  using assms
proof (induction "work_left (nat (stored_hash_count st0)) (fst c)" arbitrary: c rule: less_induct)
  case less
  obtain ts st where c: "c = (ts, st)" by (cases c)
  show ?case
  proof (cases "final ts")
    case True
    then show ?thesis unfolding c steps_def by (intro exI [of _ "(ts, st)"]) simp
  next
    case False
    from progress [OF less.prems [unfolded c] False] obtain c1 where s: "step (ts, st) c1" by blast
    obtain ts1 st1 where c1: "c1 = (ts1, st1)" by (cases c1)
    have i1: "invar st0 c1"
      by (rule invar_steps [OF _ less.prems]) (use s in \<open>auto simp: steps_def c\<close>)
    have "work_left (nat (stored_hash_count st0)) (fst c1)
        < work_left (nat (stored_hash_count st0)) (fst c)"
      using step_decreases [OF less.prems [unfolded c] s [unfolded c1]] by (simp add: c c1)
    from less.hyps [OF this i1] obtain c' where "steps c1 c'" "final (fst c')" by blast
    with s show ?thesis unfolding c steps_def
      by (blast intro: converse_rtranclp_into_rtranclp)
  qed
qed


text \<open>
  C9. Threads that each run \<open>add_elem\<close> on one live filter, interleaved in any way, one
  line at a time. At every moment at most one thread is between taking and releasing
  \<open>resource\<close>. When all have returned, the bytes of the mapping are the initial bytes
  with the positions of every element set: the bytes that the calls leave when they run
  one after the other, in any order. A thread that has not returned can always be
  scheduled or waits for one that can, every step uses up work that is left, and so every
  interleaving ends with all threads returned.
\<close>

theorem concurrent_adds_union:
  assumes "live st0" and "steps (start es, st0) (ts, st)"
  shows "writers_inside ts \<le> 1 \<and>
     (final ts \<longrightarrow>
        mapped st = set_bits (mapped st0)
          (concat (map (\<lambda>e. positions (stored_size st0) (stored_hash_count st0) (py_str e)) es)) \<and>
        (\<forall>es'. set es' = set es \<longrightarrow>
           (\<exists>st'. add_all es' st0 = Returns () st' \<and> mapped st' = mapped st))) \<and>
     (\<not> final ts \<longrightarrow> (\<exists>c'. step (ts, st) c')) \<and>
     (\<forall>c'. step (ts, st) c' \<longrightarrow>
        work_left (nat (stored_hash_count st0)) (fst c') < work_left (nat (stored_hash_count st0)) ts) \<and>
     (\<exists>ts' st'. steps (ts, st) (ts', st') \<and> final ts')"
proof -
  let ?pos = "\<lambda>e. positions (stored_size st0) (stored_hash_count st0) (py_str e)"
  have inv: "invar st0 (ts, st)"
    by (rule invar_steps [OF assms(2) invar_start [OF assms(1)]])
  have el: "map fst ts = es"
    using steps_elems [OF assms(2)] by (simp add: start_def comp_def)
  have mutex: "writers_inside ts \<le> 1"
    using inv by (simp add: invar_def Let_def)
  have fin: "mapped st = set_bits (mapped st0) (concat (map ?pos es)) \<and>
        (\<forall>es'. set es' = set es \<longrightarrow>
           (\<exists>st'. add_all es' st0 = Returns () st' \<and> mapped st' = mapped st))" if f: "final ts"
  proof
    show m: "mapped st = set_bits (mapped st0) (concat (map ?pos es))"
      by (rule final_mapped [OF inv f el])
    show "\<forall>es'. set es' = set es \<longrightarrow>
           (\<exists>st'. add_all es' st0 = Returns () st' \<and> mapped st' = mapped st)"
    proof (intro allI impI)
      fix es' assume s: "set es' = set es"
      from add_all_mapped [OF assms(1), of es'] obtain st' where
        a: "add_all es' st0 = Returns () st'"
        and m': "mapped st' = set_bits (mapped st0) (concat (map ?pos es'))" by blast
      have "set (concat (map ?pos es')) = set (concat (map ?pos es))" using s by simp
      then have "mapped st' = mapped st" unfolding m m' by (rule set_bits_cong_set)
      with a show "\<exists>st'. add_all es' st0 = Returns () st' \<and> mapped st' = mapped st" by blast
    qed
  qed
  have prog: "\<exists>c'. step (ts, st) c'" if "\<not> final ts"
    by (rule progress [OF inv that])
  have dec: "work_left (nat (stored_hash_count st0)) (fst c')
      < work_left (nat (stored_hash_count st0)) ts" if "step (ts, st) c'" for c'
    using step_decreases [OF inv, of "fst c'" "snd c'"] that by simp
  have ex: "\<exists>ts' st'. steps (ts, st) (ts', st') \<and> final ts'"
    using reach_final [OF inv] by auto
  from mutex fin prog dec ex show ?thesis by blast
qed

theorem concurrent_adds_union_witness:
  "live (driver_self, driver_world) \<and>
   steps (start [IntE 1, StrE ''abc''], (driver_self, driver_world))
         (start [IntE 1, StrE ''abc''], (driver_self, driver_world)) \<and>
   writers_inside (start [IntE 1, StrE ''abc'']) \<le> 1 \<and>
   (\<exists>c'. step (start [IntE 1, StrE ''abc''], (driver_self, driver_world)) c') \<and>
   (\<exists>ts' st'. steps (start [IntE 1, StrE ''abc''], (driver_self, driver_world)) (ts', st') \<and>
      final ts' \<and>
      mapped st' = set_bits (replicate 479 0) (positions 479 3 ''1'' @ positions 479 3 ''abc''))"
proof -
  let ?c = "(start [IntE 1, StrE ''abc''], (driver_self, driver_world))"
  have refl: "steps ?c ?c" by (simp add: steps_def)
  have nf: "\<not> final (start [IntE 1, StrE ''abc''])" by (simp add: final_def start_def)
  have d: "mapped (driver_self, driver_world) = replicate 479 0"
    "stored_size (driver_self, driver_world) = 479"
    "stored_hash_count (driver_self, driver_world) = 3"
    by (simp_all add: mapped_def stored_size_def stored_hash_count_def driver_self_def
          driver_world_def)
  have one: "str_int 1 = ''1''" by (simp add: str_int_def digit_char_def)
  note here = concurrent_adds_union [OF live_driver refl]
  from here obtain ts' st' where r: "steps ?c (ts', st')" and f: "final ts'" by blast
  from concurrent_adds_union [OF live_driver r] f
  have "mapped st' = set_bits (replicate 479 0) (positions 479 3 ''1'' @ positions 479 3 ''abc'')"
    by (simp add: d one)
  with here nf r f live_driver refl show ?thesis by blast
qed


end
